theory Spec2Isabelle
  imports Main
begin

section \<open>The yamlot tokenizer: data model\<close>

text \<open>
  The Go package \<^verbatim>\<open>token\<close> reads runes from a \<^verbatim>\<open>bufio.Reader\<close> and returns one token
  per call of \<^verbatim>\<open>NextToken\<close>. A rune is a Unicode code point (Go's \<^verbatim>\<open>rune\<close> is an
  \<^verbatim>\<open>int32\<close> that \<^verbatim>\<open>ReadRune\<close> only fills with values from 0 to 0x10FFFF), modelled as a
  natural number. The runes the code compares with are
  tab 9, newline 10, space 32, number sign 35, dash 45 and dot 46.
\<close>

type_synonym rune = nat

abbreviation TAB :: rune where "TAB \<equiv> 9"
abbreviation NL :: rune where "NL \<equiv> 10"
abbreviation SPC :: rune where "SPC \<equiv> 32"
abbreviation HASH :: rune where "HASH \<equiv> 35"
abbreviation DASH :: rune where "DASH \<equiv> 45"
abbreviation DOT :: rune where "DOT \<equiv> 46"

text \<open>
  Go errors met by the tokenizer: \<^verbatim>\<open>io.EOF\<close>, any other fault of the underlying reader
  (carrying its message), and \<^verbatim>\<open>bufio.ErrInvalidUnreadRune\<close>. A Go panic is a separate
  outcome: \<^verbatim>\<open>indentPop\<close> panics on purpose, and indexing an empty slice panics at run time.
\<close>

datatype error = EOF | ReadFault string | ErrInvalidUnreadRune

datatype panic = PanicCannotPopIndentationLevel | PanicIndexOutOfRange

subsection \<open>The buffered reader\<close>

text \<open>
  What the underlying \<^verbatim>\<open>io.Reader\<close> will deliver is a finite list of events: a decoded rune,
  or a read that fails with a non-EOF error. The end of the list is end of input, which
  stays (as for \<^verbatim>\<open>strings.Reader\<close> and files). \<^verbatim>\<open>lastRune\<close> is the rune that \<^verbatim>\<open>UnreadRune\<close> may
  push back: \<^verbatim>\<open>bufio.Reader\<close> allows it only directly after a successful \<^verbatim>\<open>ReadRune\<close>, and
  \<^verbatim>\<open>Peek\<close>, a failed read and \<^verbatim>\<open>UnreadRune\<close> itself all invalidate it.
\<close>

datatype event = Rune rune | Fault string

record Reader =
  pending :: "event list"
  lastRune :: "rune option"

definition NewReader :: "event list \<Rightarrow> Reader" where
  "NewReader input = \<lparr>pending = input, lastRune = None\<rparr>"

definition ReadRune :: "Reader \<Rightarrow> (error + rune) \<times> Reader" where
  "ReadRune rd =
     (case pending rd of
        [] \<Rightarrow> (Inl EOF, rd\<lparr>lastRune := None\<rparr>)
      | Fault e # es \<Rightarrow> (Inl (ReadFault e), rd\<lparr>pending := es, lastRune := None\<rparr>)
      | Rune r # es \<Rightarrow> (Inr r, rd\<lparr>pending := es, lastRune := Some r\<rparr>))"

definition UnreadRune :: "Reader \<Rightarrow> error option \<times> Reader" where
  "UnreadRune rd =
     (case lastRune rd of
        None \<Rightarrow> (Some ErrInvalidUnreadRune, rd)
      | Some r \<Rightarrow> (None, rd\<lparr>pending := Rune r # pending rd, lastRune := None\<rparr>))"

text \<open>
  \<^verbatim>\<open>Peek(1)\<close> returns the first byte of the next rune without consuming it. The code only
  asks whether that byte is newline or number sign; both are ASCII, and the first byte of
  the encoding of a rune is an ASCII byte exactly when the rune is that ASCII character, so
  the model returns the rune.
\<close>

definition Peek1 :: "Reader \<Rightarrow> (error + rune) \<times> Reader" where
  "Peek1 rd =
     (case pending rd of
        [] \<Rightarrow> (Inl EOF, rd\<lparr>lastRune := None\<rparr>)
      | Fault e # es \<Rightarrow> (Inl (ReadFault e), rd\<lparr>pending := es, lastRune := None\<rparr>)
      | Rune r # es \<Rightarrow> (Inr r, rd\<lparr>lastRune := None\<rparr>))"

subsection \<open>Tokens\<close>

datatype TokenType =
    TokenEOF
  | TokenError
  | TokenDash
  | TokenPlainScalar
  | TokenNewLine
  | TokenDocStart
  | TokenDocEnd
  | TokenIndent
  | TokenDedent

text \<open>
  \<^verbatim>\<open>Value\<close> is a Go string; the model keeps its code points. \<^verbatim>\<open>Line\<close> and \<^verbatim>\<open>Column\<close> are Go
  \<^verbatim>\<open>int\<close>s (64 bits), which no input of realistic length overflows: unbounded integers.
\<close>

record Token =
  Type :: TokenType
  Value :: "rune list"
  Line :: int
  Column :: int

text \<open>
  \<^verbatim>\<open>len(value)\<close> is the number of bytes of the UTF-8 encoding: \<^verbatim>\<open>string(scalar)\<close> encodes every
  rune, and a surrogate or out-of-range rune as U+FFFD (three bytes).
\<close>

definition runeLen :: "rune \<Rightarrow> int" where
  "runeLen r =
     (if r < 0x80 then 1
      else if r < 0x800 then 2
      else if 0xD800 \<le> r \<and> r \<le> 0xDFFF then 3
      else if r < 0x10000 then 3
      else if r \<le> 0x10FFFF then 4
      else 3)"

definition len :: "rune list \<Rightarrow> int" where
  "len value = sum_list (map runeLen value)"

definition TokenEqual :: "Token \<Rightarrow> Token \<Rightarrow> bool" where
  "TokenEqual t1 t2 =
     (if Type t1 \<noteq> Type t2 then False
      else if Type t1 = TokenPlainScalar then Value t1 = Value t2
      else True)"

subsection \<open>The tokenizer\<close>

datatype tokenStatus =
    statusBlank
  | statusOneDot
  | statusTwoDots
  | statusThreeDots
  | statusOneDash
  | statusTwoDashes
  | statusThreeDashes
  | statusAfterDash
  | statusScalar

fun statusName :: "tokenStatus \<Rightarrow> string" where
  "statusName statusBlank = ''StatusBlank''"
| "statusName statusOneDot = ''StatusOneDot''"
| "statusName statusTwoDots = ''StatusTwoDots''"
| "statusName statusThreeDots = ''StatusThreeDots''"
| "statusName statusOneDash = ''StatusOneDash''"
| "statusName statusTwoDashes = ''StatusTwoDashes''"
| "statusName statusThreeDashes = ''StatusThreeDashes''"
| "statusName statusAfterDash = ''StatusAfterDash''"
| "statusName statusScalar = ''StatusScalar''"

text \<open>
  The struct \<^verbatim>\<open>Tokenizer\<close>, with one more field: \<^verbatim>\<open>stdout\<close>, the lines that \<^verbatim>\<open>readRune\<close>
  prints with \<^verbatim>\<open>fmt.Printf\<close> when \<^verbatim>\<open>debug\<close> is set. A line is kept as its four arguments:
  caller, status name, rune (0 when the read failed) and error.
  The top of \<^verbatim>\<open>indentationLevelStack\<close> is the last element, as \<^verbatim>\<open>append\<close> makes it.
\<close>

type_synonym debugLine = "string \<times> string \<times> rune \<times> error option"

record Tokenizer =
  reader :: Reader
  line :: int
  column :: int
  status :: tokenStatus
  debug :: bool
  indentationLevelStack :: "int list"
  tokenBuffer :: "Token list"
  stdout :: "debugLine list"

definition NewTokenizer :: "event list \<Rightarrow> bool \<Rightarrow> Tokenizer" where
  "NewTokenizer input dbg =
     \<lparr>reader = NewReader input,
      line = 1,
      column = 0,
      status = statusBlank,
      debug = dbg,
      indentationLevelStack = [0],
      tokenBuffer = [],
      stdout = []\<rparr>"

definition indentPush :: "Tokenizer \<Rightarrow> int \<Rightarrow> Tokenizer" where
  "indentPush t level = t\<lparr>indentationLevelStack := indentationLevelStack t @ [level]\<rparr>"

definition indentPop :: "Tokenizer \<Rightarrow> panic + (int \<times> Tokenizer)" where
  "indentPop t =
     (if length (indentationLevelStack t) \<le> 1 then Inl PanicCannotPopIndentationLevel
      else Inr (last (indentationLevelStack t),
                t\<lparr>indentationLevelStack := butlast (indentationLevelStack t)\<rparr>))"

definition tokenBufferPush :: "Tokenizer \<Rightarrow> Token \<Rightarrow> Tokenizer" where
  "tokenBufferPush t token = t\<lparr>tokenBuffer := tokenBuffer t @ [token]\<rparr>"

definition tokenBufferShift :: "Tokenizer \<Rightarrow> panic + (Token \<times> Tokenizer)" where
  "tokenBufferShift t =
     (case tokenBuffer t of
        [] \<Rightarrow> Inl PanicIndexOutOfRange
      | tk # rest \<Rightarrow> Inr (tk, t\<lparr>tokenBuffer := rest\<rparr>))"

text \<open>A Go result \<^verbatim>\<open>(Token, error)\<close> together with the tokenizer after the call.\<close>

type_synonym result = "Token \<times> error option \<times> Tokenizer"

definition returnError :: "Tokenizer \<Rightarrow> error \<Rightarrow> result" where
  "returnError t err =
     (\<lparr>Type = TokenError, Value = [], Line = line t, Column = column t\<rparr>, Some err, t)"

definition returnEOF :: "Tokenizer \<Rightarrow> result" where
  "returnEOF t =
     (\<lparr>Type = TokenEOF, Value = [], Line = line t, Column = column t\<rparr>, Some EOF, t)"

text \<open>The Go literal \<^verbatim>\<open>"\\n"\<close> is a backslash (92) and the letter n (110).\<close>

definition returnNewLine :: "Tokenizer \<Rightarrow> result" where
  "returnNewLine t =
     (\<lparr>Type = TokenNewLine, Value = [92, 110], Line = line t, Column = column t\<rparr>,
      None,
      t\<lparr>line := line t + 1, column := 0\<rparr>)"

definition returnDash :: "Tokenizer \<Rightarrow> result" where
  "returnDash t =
     (\<lparr>Type = TokenDash, Value = [DASH], Line = line t, Column = column t\<rparr>, None, t)"

definition returnDocStart :: "Tokenizer \<Rightarrow> result" where
  "returnDocStart t =
     (\<lparr>Type = TokenDocStart, Value = [DASH, DASH, DASH], Line = line t,
       Column = column t - 3\<rparr>, None, t)"

definition returnDocEnd :: "Tokenizer \<Rightarrow> result" where
  "returnDocEnd t =
     (\<lparr>Type = TokenDocEnd, Value = [DOT, DOT, DOT], Line = line t,
       Column = column t - 3\<rparr>, None, t)"

definition readRune :: "string \<Rightarrow> Tokenizer \<Rightarrow> (error + rune) \<times> Tokenizer" where
  "readRune caller t =
     (case ReadRune (reader t) of (res, rd) \<Rightarrow>
        let t1 = t\<lparr>reader := rd\<rparr>;
            t2 = (if debug t1
                  then t1\<lparr>stdout := stdout t1 @
                         [(caller, statusName (status t1),
                           (case res of Inl _ \<Rightarrow> 0 | Inr ch \<Rightarrow> ch),
                           (case res of Inl err \<Rightarrow> Some err | Inr _ \<Rightarrow> None))]\<rparr>
                  else t1)
        in (case res of
              Inl err \<Rightarrow> (Inl err, t2)
            | Inr ch \<Rightarrow> (Inr ch, t2\<lparr>column := column t2 + 1\<rparr>)))"

definition unreadRune :: "Tokenizer \<Rightarrow> error option \<times> Tokenizer" where
  "unreadRune t =
     (case UnreadRune (reader t) of
        (Some err, rd) \<Rightarrow> (Some err, t\<lparr>reader := rd\<rparr>)
      | (None, rd) \<Rightarrow> (None, t\<lparr>reader := rd, column := column t - 1\<rparr>))"

definition unreadAndReturnDash :: "Tokenizer \<Rightarrow> result" where
  "unreadAndReturnDash t =
     (case unreadRune t of
        (Some err, t1) \<Rightarrow> returnError t1 err
      | (None, t1) \<Rightarrow> returnDash t1)"

text \<open>
  The loop of \<^verbatim>\<open>collectPlainScalar\<close>: peek, stop at end of input, newline or number sign,
  otherwise read the rune and append it. Every turn consumes one pending event.
\<close>

function collectPlainScalar :: "Tokenizer \<Rightarrow> rune list \<Rightarrow> result" where
  "collectPlainScalar t scalar =
     (case Peek1 (reader t) of (pk, rd) \<Rightarrow>
        let t1 = t\<lparr>reader := rd\<rparr>;
            done = (\<lambda>u. (\<lparr>Type = TokenPlainScalar, Value = scalar, Line = line u,
                           Column = column u - len scalar\<rparr>, None, u))
        in (case pk of
              Inl err \<Rightarrow> (if err = EOF then done t1 else returnError t1 err)
            | Inr p \<Rightarrow>
                if p = NL \<or> p = HASH then done t1
                else (case readRune ''collectPlainScalar'' t1 of
                        (Inl err, t2) \<Rightarrow> returnError t2 err
                      | (Inr ch, t2) \<Rightarrow> collectPlainScalar t2 (scalar @ [ch]))))"
  by pat_completeness auto


lemma Peek1_Inr: "(Inr p, rd') = Peek1 rd \<Longrightarrow> pending rd' = pending rd \<and> pending rd \<noteq> []"
  by (auto simp: Peek1_def split: list.splits event.splits)

lemma readRune_Inr:
  "(Inr ch, t') = readRune c t \<Longrightarrow> Suc (length (pending (reader t'))) = length (pending (reader t))"
  by (auto simp: readRune_def ReadRune_def Let_def
           split: list.splits event.splits prod.splits sum.splits if_splits)

termination collectPlainScalar
  apply (relation "measure (\<lambda>(t, scalar). length (pending (reader t)))")
   apply simp
  apply (auto dest!: Peek1_Inr readRune_Inr)
  done

declare collectPlainScalar.simps [simp del]

text \<open>
  The inner loop of the \<^verbatim>\<open>statusAfterDash\<close> case ("skip blanks"): \<^verbatim>\<open>ch\<close> is the rune in hand.
\<close>

function skipBlanks :: "Tokenizer \<Rightarrow> rune \<Rightarrow> result" where
  "skipBlanks t ch =
     (if ch = NL then returnNewLine t
      else if ch \<noteq> SPC then collectPlainScalar t [ch]
      else (case readRune ''NextToken: statusAfterDash'' t of
              (Inl err, t1) \<Rightarrow> (if err = EOF then returnEOF t1 else returnError t1 err)
            | (Inr ch', t1) \<Rightarrow> skipBlanks t1 ch'))"
  by pat_completeness auto

termination skipBlanks
  apply (relation "measure (\<lambda>(t, ch). length (pending (reader t)))")
   apply simp
  apply (auto dest!: readRune_Inr)
  done

declare skipBlanks.simps [simp del]

text \<open>
  \<^verbatim>\<open>pushPerStateEOF\<close>: the token of the pending marker, then the loop that pops every
  indentation level above the base and queues a \<^verbatim>\<open>Dedent\<close> for each, then the \<^verbatim>\<open>EOF\<close> token.
\<close>

function popAllIndents :: "Tokenizer \<Rightarrow> panic + Tokenizer" where
  "popAllIndents t =
     (if length (indentationLevelStack t) > 1
      then (case indentPop t of
              Inl p \<Rightarrow> Inl p
            | Inr (level, t1) \<Rightarrow>
                popAllIndents (tokenBufferPush t1
                  \<lparr>Type = TokenDedent, Value = [], Line = line t1, Column = column t1\<rparr>))
      else Inr t)"
  by pat_completeness auto

lemma indentPop_Inr:
  "indentPop t = Inr (level, t1) \<Longrightarrow>
     Suc (length (indentationLevelStack t1)) = length (indentationLevelStack t)"
  by (auto simp: indentPop_def split: if_splits)

termination popAllIndents
  apply (relation "measure (\<lambda>t. length (indentationLevelStack t))")
   apply simp
  apply (auto dest!: indentPop_Inr simp: tokenBufferPush_def)
  done

declare popAllIndents.simps [simp del]

definition pushPerStateEOF :: "Tokenizer \<Rightarrow> panic + Tokenizer" where
  "pushPerStateEOF t =
     (let t1 =
        (case status t of
           statusOneDash \<Rightarrow> tokenBufferPush t
             \<lparr>Type = TokenDash, Value = [DASH], Line = line t, Column = column t - 1\<rparr>
         | statusTwoDashes \<Rightarrow> tokenBufferPush t
             \<lparr>Type = TokenPlainScalar, Value = [DASH, DASH], Line = line t, Column = column t - 2\<rparr>
         | statusThreeDashes \<Rightarrow> tokenBufferPush t
             \<lparr>Type = TokenDocStart, Value = [DASH, DASH, DASH], Line = line t, Column = column t - 3\<rparr>
         | statusOneDot \<Rightarrow> tokenBufferPush t
             \<lparr>Type = TokenPlainScalar, Value = [DOT], Line = line t, Column = column t - 1\<rparr>
         | statusTwoDots \<Rightarrow> tokenBufferPush t
             \<lparr>Type = TokenPlainScalar, Value = [DOT, DOT], Line = line t, Column = column t - 2\<rparr>
         | statusThreeDots \<Rightarrow> tokenBufferPush t
             \<lparr>Type = TokenDocEnd, Value = [DOT, DOT, DOT], Line = line t, Column = column t - 3\<rparr>
         | _ \<Rightarrow> t)
      in (case popAllIndents t1 of
            Inl p \<Rightarrow> Inl p
          | Inr t2 \<Rightarrow> Inr (tokenBufferPush t2
              \<lparr>Type = TokenEOF, Value = [], Line = line t2, Column = column t2\<rparr>)))"


text \<open>
  One turn of the loop of \<^verbatim>\<open>NextToken\<close> after a rune has been read: the \<^verbatim>\<open>switch\<close> on the
  status either returns a result or goes on with the next rune (\<^verbatim>\<open>continue NEXT_RUNE\<close>).
  The \<^verbatim>\<open>default\<close> branch of the \<^verbatim>\<open>switch\<close> has no counterpart: \<^verbatim>\<open>status\<close> is only ever
  assigned one of the nine constants.
\<close>

datatype flow = Continue Tokenizer | Return result

definition statusSwitch :: "rune \<Rightarrow> Tokenizer \<Rightarrow> flow" where
  "statusSwitch ch t =
     (case status t of
        statusBlank \<Rightarrow>
          if ch = SPC then Continue t
          else if ch = NL then Return (returnNewLine t)
          else if ch = DASH \<and> column t = 1 then Continue (t\<lparr>status := statusOneDash\<rparr>)
          else if ch = DOT \<and> column t = 1 then Continue (t\<lparr>status := statusOneDot\<rparr>)
          else Return (collectPlainScalar t [ch])
      | statusOneDot \<Rightarrow>
          if ch = DOT then Continue (t\<lparr>status := statusTwoDots\<rparr>)
          else if ch = NL then
            (case unreadRune (t\<lparr>status := statusBlank\<rparr>) of
               (Some err, t1) \<Rightarrow> Return (returnError t1 err)
             | (None, t1) \<Rightarrow> Return
                 (\<lparr>Type = TokenPlainScalar, Value = [DOT], Line = line t1,
                   Column = column t1 - 1\<rparr>, None, t1))
          else Return (collectPlainScalar (t\<lparr>status := statusScalar\<rparr>) [DOT, ch])
      | statusTwoDots \<Rightarrow>
          if ch = DOT then Continue (t\<lparr>status := statusThreeDots\<rparr>)
          else if ch = NL then
            (case unreadRune (t\<lparr>status := statusBlank\<rparr>) of
               (Some err, t1) \<Rightarrow> Return (returnError t1 err)
             | (None, t1) \<Rightarrow> Return
                 (\<lparr>Type = TokenPlainScalar, Value = [DOT, DOT], Line = line t1,
                   Column = column t1 - 2\<rparr>, None, t1))
          else Return (collectPlainScalar (t\<lparr>status := statusScalar\<rparr>) [DOT, DOT, ch])
      | statusThreeDots \<Rightarrow>
          if ch = SPC then Return (returnDocEnd (t\<lparr>status := statusScalar\<rparr>))
          else if ch = NL then
            (case unreadRune (t\<lparr>status := statusBlank\<rparr>) of
               (Some err, t1) \<Rightarrow> Return (returnError t1 err)
             | (None, t1) \<Rightarrow> Return (returnDocEnd t1))
          else Return (collectPlainScalar (t\<lparr>status := statusScalar\<rparr>) [DOT, DOT, DOT, ch])
      | statusOneDash \<Rightarrow>
          if ch = SPC then Return (returnDash (t\<lparr>status := statusScalar\<rparr>))
          else if ch = TAB then Return (unreadAndReturnDash (t\<lparr>status := statusAfterDash\<rparr>))
          else if ch = NL then Return (unreadAndReturnDash (t\<lparr>status := statusBlank\<rparr>))
          else if ch = DASH then Continue (t\<lparr>status := statusTwoDashes\<rparr>)
          else Return (collectPlainScalar (t\<lparr>status := statusBlank\<rparr>) [DASH, ch])
      | statusTwoDashes \<Rightarrow>
          if ch = SPC then
            (let t1 = t\<lparr>status := statusBlank\<rparr>
             in Return (\<lparr>Type = TokenPlainScalar, Value = [DASH, DASH], Line = line t1,
                          Column = column t1 - 2\<rparr>, None, t1))
          else if ch = NL then
            (case unreadRune (t\<lparr>status := statusBlank\<rparr>) of
               (Some err, t1) \<Rightarrow> Return (returnError t1 err)
             | (None, t1) \<Rightarrow> Return
                 (\<lparr>Type = TokenPlainScalar, Value = [DASH, DASH], Line = line t1,
                   Column = column t1 - 2\<rparr>, None, t1))
          else if ch = DASH then Continue (t\<lparr>status := statusThreeDashes\<rparr>)
          else Return (collectPlainScalar (t\<lparr>status := statusBlank\<rparr>) [DASH, DASH, ch])
      | statusThreeDashes \<Rightarrow>
          if ch = SPC then Return (returnDocStart (t\<lparr>status := statusScalar\<rparr>))
          else if ch = NL then
            (case unreadRune (t\<lparr>status := statusBlank\<rparr>) of
               (Some err, t1) \<Rightarrow> Return (returnError t1 err)
             | (None, t1) \<Rightarrow> Return (returnDocStart t1))
          else Return (collectPlainScalar (t\<lparr>status := statusBlank\<rparr>) [DASH, DASH, DASH, ch])
      | statusAfterDash \<Rightarrow> Return (skipBlanks (t\<lparr>status := statusBlank\<rparr>) ch)
      | statusScalar \<Rightarrow>
          if ch = NL then
            (case unreadRune (t\<lparr>status := statusBlank\<rparr>) of
               (Some err, t1) \<Rightarrow> Return (returnError t1 err)
             | (None, t1) \<Rightarrow> Return (collectPlainScalar t1 []))
          else Return (collectPlainScalar (t\<lparr>status := statusBlank\<rparr>) [ch]))"

text \<open>
  \<^verbatim>\<open>NextToken\<close>: a buffered token first; otherwise read a rune; at end of input queue the
  closing tokens and go round again; on any other error return it; otherwise the switch.
  A panic of a helper would end the call, so the result is a sum.
\<close>

function NextToken :: "Tokenizer \<Rightarrow> panic + result" where
  "NextToken t =
     (if length (tokenBuffer t) > 0 then
        (case tokenBufferShift t of
           Inl p \<Rightarrow> Inl p
         | Inr (tk, t1) \<Rightarrow>
             if Type tk = TokenEOF then Inr (tk, Some EOF, t1) else Inr (tk, None, t1))
      else
        (case readRune ''NextToken'' t of
           (Inl err, t1) \<Rightarrow>
             if err = EOF then
               (case pushPerStateEOF t1 of
                  Inl p \<Rightarrow> Inl p
                | Inr t2 \<Rightarrow> NextToken t2)
             else Inr (returnError t1 err)
         | (Inr ch, t1) \<Rightarrow>
             (case statusSwitch ch t1 of
                Continue t2 \<Rightarrow> NextToken t2
              | Return r \<Rightarrow> Inr r)))"
  by pat_completeness auto

lemma pushPerStateEOF_buffer: "pushPerStateEOF t = Inr t2 \<Longrightarrow> tokenBuffer t2 \<noteq> []"
  by (auto simp: pushPerStateEOF_def Let_def tokenBufferPush_def split: sum.splits)

lemma statusSwitch_Continue:
  "statusSwitch ch t = Continue t2 \<Longrightarrow> reader t2 = reader t \<and> tokenBuffer t2 = tokenBuffer t"
  by (auto simp: statusSwitch_def Let_def split: tokenStatus.splits if_splits prod.splits option.splits)

lemma readRune_tokenBuffer: "readRune c t = (r, t1) \<Longrightarrow> tokenBuffer t1 = tokenBuffer t"
  by (auto simp: readRune_def Let_def split: prod.splits sum.splits if_splits)

definition loopMeasure :: "Tokenizer \<Rightarrow> nat" where
  "loopMeasure t = (if tokenBuffer t \<noteq> [] then 0 else Suc (length (pending (reader t))))"

termination NextToken
  apply (relation "measure loopMeasure")
    apply simp
   apply (auto simp: loopMeasure_def dest!: pushPerStateEOF_buffer)[1]
  apply (auto simp: loopMeasure_def dest!: statusSwitch_Continue readRune_Inr
              dest: readRune_tokenBuffer [OF sym])
  done

declare NextToken.simps [simp del]

text \<open>
  A caller that calls \<^verbatim>\<open>NextToken\<close> \<open>n\<close> times in a row, as the tests and the command-line
  tool do, keeping each returned token and error; a panic ends the run.
\<close>

fun calls :: "nat \<Rightarrow> Tokenizer \<Rightarrow> (panic + Token \<times> error option) list" where
  "calls 0 t = []"
| "calls (Suc n) t =
     (case NextToken t of
        Inl p \<Rightarrow> [Inl p]
      | Inr (tk, err, t1) \<Rightarrow> Inr (tk, err) # calls n t1)"


section \<open>Auxiliary notions for the properties\<close>

text \<open>
  A tokenizer with the debug flag cleared and nothing printed: the part of the state that
  the tokens depend on.
\<close>

definition quiet :: "Tokenizer \<Rightarrow> Tokenizer" where
  "quiet t = t\<lparr>debug := False, stdout := []\<rparr>"

definition quietResult :: "result \<Rightarrow> result" where
  "quietResult r = (case r of (tk, err, t) \<Rightarrow> (tk, err, quiet t))"

definition quietFlow :: "flow \<Rightarrow> flow" where
  "quietFlow f = (case f of Continue t \<Rightarrow> Continue (quiet t) | Return r \<Rightarrow> Return (quietResult r))"

text \<open>
  The error that \<^verbatim>\<open>NextToken\<close> pairs with a buffered token, and the \<^verbatim>\<open>Dedent\<close> and \<^verbatim>\<open>EOF\<close>
  tokens that \<^verbatim>\<open>pushPerStateEOF\<close> builds at the position of a tokenizer.
\<close>

definition errOf :: "Token \<Rightarrow> error option" where
  "errOf tk = (if Type tk = TokenEOF then Some EOF else None)"

definition dedentAt :: "Tokenizer \<Rightarrow> Token" where
  "dedentAt t = \<lparr>Type = TokenDedent, Value = [], Line = line t, Column = column t\<rparr>"

text \<open>The token that \<^verbatim>\<open>pushPerStateEOF\<close> queues first for a status, if any.\<close>

definition eofMarker :: "Tokenizer \<Rightarrow> Token list" where
  "eofMarker t =
     (case status t of
        statusOneDash \<Rightarrow>
          [\<lparr>Type = TokenDash, Value = [DASH], Line = line t, Column = column t - 1\<rparr>]
      | statusTwoDashes \<Rightarrow>
          [\<lparr>Type = TokenPlainScalar, Value = [DASH, DASH], Line = line t, Column = column t - 2\<rparr>]
      | statusThreeDashes \<Rightarrow>
          [\<lparr>Type = TokenDocStart, Value = [DASH, DASH, DASH], Line = line t, Column = column t - 3\<rparr>]
      | statusOneDot \<Rightarrow>
          [\<lparr>Type = TokenPlainScalar, Value = [DOT], Line = line t, Column = column t - 1\<rparr>]
      | statusTwoDots \<Rightarrow>
          [\<lparr>Type = TokenPlainScalar, Value = [DOT, DOT], Line = line t, Column = column t - 2\<rparr>]
      | statusThreeDots \<Rightarrow>
          [\<lparr>Type = TokenDocEnd, Value = [DOT, DOT, DOT], Line = line t, Column = column t - 3\<rparr>]
      | _ \<Rightarrow> [])"

definition eofAt :: "Tokenizer \<Rightarrow> Token" where
  "eofAt t = \<lparr>Type = TokenEOF, Value = [], Line = line t, Column = column t\<rparr>"

text \<open>
  The specification's table of partial markers: the kind and value of the token that
  resolves each of the six marker states.
\<close>

fun specPartialMarker :: "tokenStatus \<Rightarrow> (TokenType \<times> rune list) option" where
  "specPartialMarker statusOneDash = Some (TokenDash, [DASH])"
| "specPartialMarker statusTwoDashes = Some (TokenPlainScalar, [DASH, DASH])"
| "specPartialMarker statusThreeDashes = Some (TokenDocStart, [DASH, DASH, DASH])"
| "specPartialMarker statusOneDot = Some (TokenPlainScalar, [DOT])"
| "specPartialMarker statusTwoDots = Some (TokenPlainScalar, [DOT, DOT])"
| "specPartialMarker statusThreeDots = Some (TokenDocEnd, [DOT, DOT, DOT])"
| "specPartialMarker _ = None"

text \<open>The read faults among pending events, in order.\<close>

fun faults :: "event list \<Rightarrow> string list" where
  "faults [] = []"
| "faults (Rune r # es) = faults es"
| "faults (Fault e # es) = e # faults es"

text \<open>
  What a call may do with the read faults still to come: leave them all, or consume the
  first one and return it with an \<^verbatim>\<open>Error\<close> token.
\<close>

definition surfaced :: "event list \<Rightarrow> event list \<Rightarrow> Token \<Rightarrow> error option \<Rightarrow> bool" where
  "surfaced before after tk err =
     (faults after = faults before \<or>
      (faults before \<noteq> [] \<and> faults after = tl (faults before) \<and> Type tk = TokenError \<and>
       err = Some (ReadFault (hd (faults before)))))"

definition scalarOK :: "Token \<Rightarrow> bool" where
  "scalarOK tk = (Type tk \<noteq> TokenPlainScalar \<or> NL \<notin> set (Value tk))"

text \<open>
  The specification's trimming: leading and trailing whitespace removed. Whitespace is what
  Go's \<^verbatim>\<open>unicode.IsSpace\<close> accepts, the set that \<^verbatim>\<open>strings.TrimSpace\<close> trims.
\<close>

definition isSpace :: "rune \<Rightarrow> bool" where
  "isSpace r =
     (r \<in> {9, 10, 11, 12, 13, 32, 0x85, 0xA0, 0x1680, 0x2028, 0x2029, 0x202F, 0x205F, 0x3000}
      \<or> (0x2000 \<le> r \<and> r \<le> 0x200A))"

definition specTrimmed :: "rune list \<Rightarrow> rune list" where
  "specTrimmed raw = rev (dropWhile isSpace (rev (dropWhile isSpace raw)))"

text \<open>
  Where \<^verbatim>\<open>collectPlainScalar\<close> stops without an error: the next peek meets the end of
  input, a newline or a number sign.
\<close>

definition atScalarEnd :: "event list \<Rightarrow> bool" where
  "atScalarEnd es =
     (case es of [] \<Rightarrow> True | Rune r # _ \<Rightarrow> r = NL \<or> r = HASH | Fault _ # _ \<Rightarrow> False)"

section \<open>Lemmas about the operations\<close>

subsection \<open>No call of \<^verbatim>\<open>NextToken\<close> panics\<close>

lemma popAllIndents_no_panic: "\<exists>t'. popAllIndents t = Inr t'"
proof (induction t rule: popAllIndents.induct)
  case (1 t)
  show ?case
  proof (cases "length (indentationLevelStack t) > 1")
    case True
    then obtain level t1 where pop: "indentPop t = Inr (level, t1)"
      by (auto simp: indentPop_def)
    from "1.IH" [OF True pop refl] pop True show ?thesis
      by (subst popAllIndents.simps) simp
  next
    case False
    then show ?thesis
      by (subst popAllIndents.simps) simp
  qed
qed

lemma pushPerStateEOF_no_panic: "\<exists>t'. pushPerStateEOF t = Inr t'"
proof -
  obtain t1 where "pushPerStateEOF t = (case popAllIndents t1 of Inl p \<Rightarrow> Inl p
      | Inr t2 \<Rightarrow> Inr (tokenBufferPush t2
              \<lparr>Type = TokenEOF, Value = [], Line = line t2, Column = column t2\<rparr>))"
    unfolding pushPerStateEOF_def Let_def by blast
  moreover obtain t2 where "popAllIndents t1 = Inr t2"
    using popAllIndents_no_panic by blast
  ultimately show ?thesis
    by simp
qed

lemma NextToken_no_panic: "\<exists>tk err t'. NextToken t = Inr (tk, err, t')"
proof (induction t rule: NextToken.induct)
  case (1 t)
  show ?case
  proof (cases "length (tokenBuffer t) > 0")
    case True
    then show ?thesis
      by (subst NextToken.simps) (auto simp: tokenBufferShift_def split: list.splits)
  next
    case False
    obtain res t1 where rr: "(res, t1) = readRune ''NextToken'' t"
      by (cases "readRune ''NextToken'' t") auto
    show ?thesis
    proof (cases res)
      case (Inl err)
      show ?thesis
      proof (cases "err = EOF")
        case True
        obtain t2 where push: "pushPerStateEOF t1 = Inr t2"
          using pushPerStateEOF_no_panic by blast
        from "1.IH"(1) [OF False rr Inl True push]
        show ?thesis
          using False rr [symmetric] Inl True push by (subst NextToken.simps) simp
      next
        case notEOF: False
        then show ?thesis
          using False rr [symmetric] Inl by (subst NextToken.simps) (simp add: returnError_def)
      qed
    next
      case (Inr ch)
      show ?thesis
      proof (cases "statusSwitch ch t1")
        case (Continue t2)
        from "1.IH"(2) [OF False rr Inr Continue]
        show ?thesis
          using False rr [symmetric] Inr Continue by (subst NextToken.simps) simp
      next
        case (Return r)
        then show ?thesis
          using False rr [symmetric] Inr by (subst NextToken.simps) (cases r, simp)
      qed
    qed
  qed
qed

subsection \<open>The debug flag only feeds the printed trace\<close>

lemma quiet_fields [simp]:
  "reader (quiet t) = reader t" "line (quiet t) = line t" "column (quiet t) = column t"
  "status (quiet t) = status t" "indentationLevelStack (quiet t) = indentationLevelStack t"
  "tokenBuffer (quiet t) = tokenBuffer t" "debug (quiet t) = False" "stdout (quiet t) = []"
  by (simp_all add: quiet_def)

lemma quiet_updates [simp]:
  "(quiet t)\<lparr>reader := rd\<rparr> = quiet (t\<lparr>reader := rd\<rparr>)"
  "(quiet t)\<lparr>line := l\<rparr> = quiet (t\<lparr>line := l\<rparr>)"
  "(quiet t)\<lparr>column := c\<rparr> = quiet (t\<lparr>column := c\<rparr>)"
  "(quiet t)\<lparr>status := s\<rparr> = quiet (t\<lparr>status := s\<rparr>)"
  "(quiet t)\<lparr>indentationLevelStack := st\<rparr> = quiet (t\<lparr>indentationLevelStack := st\<rparr>)"
  "(quiet t)\<lparr>tokenBuffer := b\<rparr> = quiet (t\<lparr>tokenBuffer := b\<rparr>)"
  "quiet (t\<lparr>stdout := out\<rparr>) = quiet t"
  by (simp_all add: quiet_def)

lemma readRune_quiet:
  "readRune c (quiet t) = (fst (readRune c t), quiet (snd (readRune c t)))"
  by (simp add: readRune_def Let_def quiet_def split: prod.splits sum.splits)

lemma unreadRune_quiet:
  "unreadRune (quiet t) = (fst (unreadRune t), quiet (snd (unreadRune t)))"
  by (simp add: unreadRune_def quiet_def split: prod.splits option.splits)

lemma return_quiet [simp]:
  "returnError (quiet t) err = quietResult (returnError t err)"
  "returnEOF (quiet t) = quietResult (returnEOF t)"
  "returnNewLine (quiet t) = quietResult (returnNewLine t)"
  "returnDash (quiet t) = quietResult (returnDash t)"
  "returnDocStart (quiet t) = quietResult (returnDocStart t)"
  "returnDocEnd (quiet t) = quietResult (returnDocEnd t)"
  by (simp_all add: quietResult_def returnError_def returnEOF_def returnNewLine_def
        returnDash_def returnDocStart_def returnDocEnd_def quiet_def)

lemma unreadAndReturnDash_quiet [simp]:
  "unreadAndReturnDash (quiet t) = quietResult (unreadAndReturnDash t)"
  by (simp add: unreadAndReturnDash_def unreadRune_quiet split: prod.splits option.splits)

lemma collectPlainScalar_quiet [simp]:
  "collectPlainScalar (quiet t) scalar = quietResult (collectPlainScalar t scalar)"
proof (induction t scalar rule: collectPlainScalar.induct)
  case (1 t scalar)
  obtain pk rd where pk: "(pk, rd) = Peek1 (reader t)"
    by (cases "Peek1 (reader t)") auto
  show ?case
  proof (cases pk)
    case (Inl err)
    then show ?thesis
      using pk [symmetric]
      by (subst collectPlainScalar.simps, subst (2) collectPlainScalar.simps)
         (simp add: quietResult_def returnError_def Let_def)
  next
    case (Inr p)
    show ?thesis
    proof (cases "p = NL \<or> p = HASH")
      case True
      then show ?thesis
        using pk [symmetric] Inr
        by (subst collectPlainScalar.simps, subst (2) collectPlainScalar.simps)
           (simp add: quietResult_def returnError_def Let_def)
    next
      case False
      obtain res t2 where rr: "(res, t2) = readRune ''collectPlainScalar'' (t\<lparr>reader := rd\<rparr>)"
        by (cases "readRune ''collectPlainScalar'' (t\<lparr>reader := rd\<rparr>)") auto
      show ?thesis
      proof (cases res)
        case err: (Inl err)
        then show ?thesis
          using pk [symmetric] Inr False rr [symmetric]
          by (subst collectPlainScalar.simps, subst (2) collectPlainScalar.simps)
             (simp add: readRune_quiet quietResult_def returnError_def Let_def)
      next
        case ch: (Inr ch)
        from "1.IH" [OF pk refl refl Inr False rr ch]
        show ?thesis
          using pk [symmetric] Inr False rr [symmetric] ch
          by (subst collectPlainScalar.simps, subst (2) collectPlainScalar.simps)
             (simp add: readRune_quiet quietResult_def returnError_def Let_def)
      qed
    qed
  qed
qed

lemma skipBlanks_quiet [simp]:
  "skipBlanks (quiet t) ch = quietResult (skipBlanks t ch)"
proof (induction t ch rule: skipBlanks.induct)
  case (1 t ch)
  obtain res t1 where rr: "(res, t1) = readRune ''NextToken: statusAfterDash'' t"
    by (cases "readRune ''NextToken: statusAfterDash'' t") auto
  show ?case
  proof (cases "ch \<noteq> NL \<and> \<not> ch \<noteq> SPC")
    case False
    then show ?thesis
      by (auto simp: skipBlanks.simps [of t] skipBlanks.simps [of "quiet t"])
  next
    case True
    show ?thesis
    proof (cases res)
      case (Inl err)
      then show ?thesis
        using True rr [symmetric]
        by (simp add: skipBlanks.simps [of t] skipBlanks.simps [of "quiet t"] readRune_quiet)
    next
      case (Inr ch')
      from "1.IH" [OF _ _ rr Inr] True
      show ?thesis
        using rr [symmetric] Inr
        by (simp add: skipBlanks.simps [of t] skipBlanks.simps [of "quiet t"] readRune_quiet)
    qed
  qed
qed

lemma statusSwitch_quiet: "statusSwitch ch (quiet t) = quietFlow (statusSwitch ch t)"
  by (cases "status t")
     (simp_all add: statusSwitch_def quietFlow_def unreadRune_quiet Let_def
        split: prod.splits option.splits, simp_all add: quietResult_def)

lemma popAllIndents_quiet:
  "popAllIndents (quiet t) =
     (case popAllIndents t of Inl p \<Rightarrow> Inl p | Inr t' \<Rightarrow> Inr (quiet t'))"
proof (induction t rule: popAllIndents.induct)
  case (1 t)
  show ?case
  proof (cases "length (indentationLevelStack t) > 1")
    case True
    then obtain level t1 where pop: "indentPop t = Inr (level, t1)"
      by (auto simp: indentPop_def)
    then have popq: "indentPop (quiet t) = Inr (level, quiet t1)"
      by (auto simp: indentPop_def split: if_splits)
    from "1.IH" [OF True pop refl] pop popq True show ?thesis
      by (simp add: popAllIndents.simps [of t] popAllIndents.simps [of "quiet t"]
            tokenBufferPush_def)
  next
    case False
    then show ?thesis
      by (simp add: popAllIndents.simps [of t] popAllIndents.simps [of "quiet t"])
  qed
qed

lemma pushPerStateEOF_quiet:
  "pushPerStateEOF (quiet t) =
     (case pushPerStateEOF t of Inl p \<Rightarrow> Inl p | Inr t' \<Rightarrow> Inr (quiet t'))"
  by (cases "status t")
     (simp_all add: pushPerStateEOF_def Let_def tokenBufferPush_def popAllIndents_quiet
        split: sum.splits)

lemma NextToken_quiet:
  "NextToken t = Inr (tk, err, t') \<Longrightarrow> NextToken (quiet t) = Inr (tk, err, quiet t')"
proof (induction t rule: NextToken.induct)
  case (1 t)
  note prem = "1.prems"
  show ?case
  proof (cases "length (tokenBuffer t) > 0")
    case True
    then show ?thesis
      using prem
      by (auto simp: NextToken.simps [of t] NextToken.simps [of "quiet t"]
            tokenBufferShift_def split: list.splits if_splits)
  next
    case False
    obtain res t1 where rr: "(res, t1) = readRune ''NextToken'' t"
      by (cases "readRune ''NextToken'' t") auto
    show ?thesis
    proof (cases res)
      case (Inl e)
      show ?thesis
      proof (cases "e = EOF")
        case True
        obtain t2 where push: "pushPerStateEOF t1 = Inr t2"
          using pushPerStateEOF_no_panic by blast
        from prem False rr [symmetric] Inl True push
        have "NextToken t2 = Inr (tk, err, t')"
          by (simp add: NextToken.simps [of t])
        from "1.IH"(1) [OF False rr Inl True push this]
        show ?thesis
          using False rr [symmetric] Inl True push
          by (simp add: NextToken.simps [of "quiet t"] readRune_quiet pushPerStateEOF_quiet)
      next
        case notEOF: False
        then show ?thesis
          using False rr [symmetric] Inl prem
          by (auto simp: NextToken.simps [of t] NextToken.simps [of "quiet t"] readRune_quiet
                quietResult_def)
      qed
    next
      case (Inr ch)
      show ?thesis
      proof (cases "statusSwitch ch t1")
        case (Continue t2)
        from prem False rr [symmetric] Inr Continue
        have "NextToken t2 = Inr (tk, err, t')"
          by (simp add: NextToken.simps [of t])
        from "1.IH"(2) [OF False rr Inr Continue this]
        show ?thesis
          using False rr [symmetric] Inr Continue
          by (simp add: NextToken.simps [of "quiet t"] readRune_quiet statusSwitch_quiet
                quietFlow_def)
      next
        case (Return r)
        then show ?thesis
          using False rr [symmetric] Inr prem
          by (auto simp: NextToken.simps [of t] NextToken.simps [of "quiet t"] readRune_quiet
                statusSwitch_quiet quietFlow_def quietResult_def)
      qed
    qed
  qed
qed

lemma calls_quiet: "calls n (quiet t) = calls n t"
proof (induction n arbitrary: t)
  case 0
  show ?case by simp
next
  case (Suc n)
  obtain tk err t1 where nt: "NextToken t = Inr (tk, err, t1)"
    using NextToken_no_panic by blast
  then show ?case
    using Suc.IH [of t1] NextToken_quiet [OF nt] by simp
qed

lemma calls_any_debug: "calls n (NewTokenizer input dbg) = calls n (NewTokenizer input False)"
proof -
  have "quiet (NewTokenizer input dbg) = NewTokenizer input False"
    by (simp add: quiet_def NewTokenizer_def)
  then show ?thesis
    using calls_quiet [of n "NewTokenizer input dbg"] by simp
qed

subsection \<open>Draining the buffer and the end of input\<close>

lemma NextToken_buffered:
  "tokenBuffer t = b # bs \<Longrightarrow> NextToken t = Inr (b, errOf b, t\<lparr>tokenBuffer := bs\<rparr>)"
  by (simp add: NextToken.simps [of t] tokenBufferShift_def errOf_def)

lemma calls_drain:
  "tokenBuffer t = bs \<Longrightarrow> calls (length bs) t = map (\<lambda>b. Inr (b, errOf b)) bs"
proof (induction bs arbitrary: t)
  case Nil
  show ?case by simp
next
  case (Cons b bs)
  from Cons.IH [of "t\<lparr>tokenBuffer := bs\<rparr>"] NextToken_buffered [OF Cons.prems]
  show ?case by simp
qed

lemma popAllIndents_eq:
  "popAllIndents t =
     Inr (t\<lparr>indentationLevelStack := take 1 (indentationLevelStack t),
            tokenBuffer := tokenBuffer t @
              replicate (length (indentationLevelStack t) - 1) (dedentAt t)\<rparr>)"
proof (induction t rule: popAllIndents.induct)
  case (1 t)
  show ?case
  proof (cases "length (indentationLevelStack t) > 1")
    case True
    define t1 where "t1 = t\<lparr>indentationLevelStack := butlast (indentationLevelStack t)\<rparr>"
    have pop: "indentPop t = Inr (last (indentationLevelStack t), t1)"
      using True by (simp add: indentPop_def t1_def)
    have tk: "take 1 (butlast (indentationLevelStack t)) = take 1 (indentationLevelStack t)"
      using True by (cases "indentationLevelStack t") (auto simp: take_Suc_conv_app_nth)
    have rp: "d # replicate (length (indentationLevelStack t) - Suc (Suc 0)) d =
              replicate (length (indentationLevelStack t) - Suc 0) d" for d :: Token
      using True by (cases "length (indentationLevelStack t) - Suc 0") auto
    from "1.IH" [OF True pop refl] pop True tk rp show ?thesis
      by (simp add: popAllIndents.simps [of t] tokenBufferPush_def t1_def dedentAt_def)
  next
    case False
    then have "take 1 (indentationLevelStack t) = indentationLevelStack t"
      by simp
    with False show ?thesis
      by (simp add: popAllIndents.simps [of t])
  qed
qed

lemma readRune_at_EOF:
  "pending (reader t) = [] \<Longrightarrow>
     \<exists>t1. readRune c t = (Inl EOF, t1) \<and> line t1 = line t \<and> column t1 = column t \<and>
          status t1 = status t \<and> indentationLevelStack t1 = indentationLevelStack t \<and>
          tokenBuffer t1 = tokenBuffer t \<and> pending (reader t1) = []"
  by (simp add: readRune_def ReadRune_def Let_def)

lemma pushPerStateEOF_eq:
  "pushPerStateEOF t =
     Inr (t\<lparr>indentationLevelStack := take 1 (indentationLevelStack t),
            tokenBuffer := tokenBuffer t @ eofMarker t @
              replicate (length (indentationLevelStack t) - 1) (dedentAt t) @ [eofAt t]\<rparr>)"
  by (cases "status t")
     (simp_all add: pushPerStateEOF_def Let_def popAllIndents_eq tokenBufferPush_def
        eofMarker_def eofAt_def dedentAt_def)

lemma NextToken_at_EOF:
  assumes "tokenBuffer t = []" and "pending (reader t) = []"
  shows "\<exists>t2. NextToken t = NextToken t2 \<and>
           tokenBuffer t2 = eofMarker t @
              replicate (length (indentationLevelStack t) - 1) (dedentAt t) @ [eofAt t]"
proof -
  from readRune_at_EOF [OF assms(2)] obtain t1 where
    rr: "readRune ''NextToken'' t = (Inl EOF, t1)" and
    same: "line t1 = line t" "column t1 = column t" "status t1 = status t"
      "indentationLevelStack t1 = indentationLevelStack t" "tokenBuffer t1 = tokenBuffer t"
    by blast
  let ?t2 = "t1\<lparr>indentationLevelStack := take 1 (indentationLevelStack t1),
            tokenBuffer := tokenBuffer t1 @ eofMarker t1 @
              replicate (length (indentationLevelStack t1) - 1) (dedentAt t1) @ [eofAt t1]\<rparr>"
  have "NextToken t = NextToken ?t2"
    using assms(1) rr by (simp add: NextToken.simps [of t] pushPerStateEOF_eq)
  moreover have "tokenBuffer ?t2 = eofMarker t @
              replicate (length (indentationLevelStack t) - 1) (dedentAt t) @ [eofAt t]"
    using same assms(1)
    by (simp add: eofMarker_def dedentAt_def eofAt_def split: tokenStatus.splits)
  ultimately show ?thesis
    by blast
qed

lemma calls_at_EOF:
  assumes "tokenBuffer t = []" and "pending (reader t) = []"
  shows "calls (length (eofMarker t) + (length (indentationLevelStack t) - 1) + 1) t =
           map (\<lambda>b. Inr (b, errOf b))
             (eofMarker t @ replicate (length (indentationLevelStack t) - 1) (dedentAt t) @ [eofAt t])"
proof -
  from NextToken_at_EOF [OF assms] obtain t2 where
    nt: "NextToken t = NextToken t2" and
    buf: "tokenBuffer t2 = eofMarker t @
              replicate (length (indentationLevelStack t) - 1) (dedentAt t) @ [eofAt t]"
    by blast
  have "calls (Suc k) t = calls (Suc k) t2" for k
    using nt by simp
  from this [of "length (eofMarker t) + (length (indentationLevelStack t) - 1)"]
    calls_drain [OF buf]
  show ?thesis
    by simp
qed

lemma eofMarker_spec:
  "specPartialMarker (status t) = Some (ty, v) \<Longrightarrow>
     eofMarker t = [\<lparr>Type = ty, Value = v, Line = line t, Column = column t - int (length v)\<rparr>]"
  by (cases "status t") (auto simp: eofMarker_def)

lemma newline_transition:
  assumes "tokenBuffer t = []" and "pending (reader t) = Rune NL # rest"
    and "specPartialMarker (status t) = Some (ty, v)"
  shows "\<exists>tk t'. NextToken t = Inr (tk, None, t') \<and> Type tk = ty \<and> Value tk = v"
  using assms
  by (cases "status t")
     (auto simp: NextToken.simps [of t] readRune_def ReadRune_def Let_def statusSwitch_def
        unreadRune_def UnreadRune_def unreadAndReturnDash_def returnDash_def returnDocStart_def
        returnDocEnd_def)

subsection \<open>Newlines in the \<^verbatim>\<open>Blank\<close> state\<close>

lemma newline_step:
  assumes "status t = statusBlank" and "tokenBuffer t = []"
    and "pending (reader t) = Rune NL # rest"
  shows "\<exists>t'. NextToken t =
             Inr (\<lparr>Type = TokenNewLine, Value = [92, 110], Line = line t, Column = column t + 1\<rparr>,
                  None, t') \<and>
           status t' = statusBlank \<and> tokenBuffer t' = [] \<and> pending (reader t') = rest \<and>
           line t' = line t + 1 \<and> column t' = 0 \<and>
           indentationLevelStack t' = indentationLevelStack t"
  using assms
  by (simp add: NextToken.simps [of t] readRune_def ReadRune_def Let_def statusSwitch_def
        returnNewLine_def)

lemma blank_EOF_step:
  assumes "status t = statusBlank" and "tokenBuffer t = []" and "pending (reader t) = []"
    and "length (indentationLevelStack t) = 1"
  shows "calls 1 t = [Inr (\<lparr>Type = TokenEOF, Value = [], Line = line t, Column = column t\<rparr>, Some EOF)]"
  using calls_at_EOF [OF assms(2,3)] assms(1,4)
  by (simp add: eofMarker_def errOf_def eofAt_def)

lemma newlines_only_general:
  assumes "status t = statusBlank" and "tokenBuffer t = []"
    and "pending (reader t) = replicate N (Rune NL)"
    and "length (indentationLevelStack t) = 1" and "column t = 0"
  shows "calls (Suc N) t =
           map (\<lambda>i. Inr (\<lparr>Type = TokenNewLine, Value = [92, 110], Line = line t + int i,
                              Column = 1\<rparr>, None)) [0..<N] @
           [Inr (\<lparr>Type = TokenEOF, Value = [], Line = line t + int N, Column = 0\<rparr>, Some EOF)]"
  using assms
proof (induction N arbitrary: t)
  case 0
  then show ?case
    using blank_EOF_step [of t] by simp
next
  case (Suc N)
  from newline_step [OF Suc.prems(1,2), of "replicate N (Rune NL)"] Suc.prems(3)
  obtain t' where nt: "NextToken t =
             Inr (\<lparr>Type = TokenNewLine, Value = [92, 110], Line = line t, Column = column t + 1\<rparr>,
                  None, t')"
    and t': "status t' = statusBlank" "tokenBuffer t' = []"
      "pending (reader t') = replicate N (Rune NL)"
      "line t' = line t + 1" "column t' = 0"
      "indentationLevelStack t' = indentationLevelStack t"
    by auto
  have ih: "calls (Suc N) t' =
           map (\<lambda>i. Inr (\<lparr>Type = TokenNewLine, Value = [92, 110], Line = line t' + int i,
                              Column = 1\<rparr>, None)) [0..<N] @
           [Inr (\<lparr>Type = TokenEOF, Value = [], Line = line t' + int N, Column = 0\<rparr>, Some EOF)]"
    using Suc.IH [of t'] t' Suc.prems(4) by simp
  have shift: "map (\<lambda>i. Inr (\<lparr>Type = TokenNewLine, Value = [92, 110], Line = line t + int i,
                              Column = 1\<rparr>, None :: error option) :: panic + Token \<times> error option) [0..<Suc N] =
        Inr (\<lparr>Type = TokenNewLine, Value = [92, 110], Line = line t, Column = 1\<rparr>, None) #
        map (\<lambda>i. Inr (\<lparr>Type = TokenNewLine, Value = [92, 110], Line = line t + 1 + int i,
                              Column = 1\<rparr>, None)) [0..<N]"
    unfolding upt_conv_Cons [OF zero_less_Suc] map_Suc_upt [symmetric]
    by (simp add: add.assoc)
  have "calls (Suc (Suc N)) t =
          Inr (\<lparr>Type = TokenNewLine, Value = [92, 110], Line = line t, Column = 1\<rparr>, None) #
          calls (Suc N) t'"
    using nt Suc.prems(5) by simp
  also note ih
  finally show ?case
    unfolding shift t'(4) by (simp add: add.assoc)
qed

subsection \<open>Read faults and newline-free scalars, call by call\<close>

lemma Peek1_cases:
  assumes "Peek1 rd = (pk, rd')"
  shows "(pk = Inl EOF \<and> pending rd = [] \<and> pending rd' = []) \<or>
         (\<exists>e. pk = Inl (ReadFault e) \<and> pending rd = Fault e # pending rd') \<or>
         (\<exists>p. pk = Inr p \<and> pending rd' = pending rd \<and> (\<exists>es. pending rd = Rune p # es))"
  using assms by (auto simp: Peek1_def split: list.splits event.splits)

lemma readRune_cases:
  assumes "readRune c t = (res, t1)"
  shows "tokenBuffer t1 = tokenBuffer t \<and> line t1 = line t \<and> status t1 = status t \<and>
         indentationLevelStack t1 = indentationLevelStack t \<and>
         ((res = Inl EOF \<and> pending (reader t) = [] \<and> pending (reader t1) = []) \<or>
          (\<exists>e. res = Inl (ReadFault e) \<and> pending (reader t) = Fault e # pending (reader t1)) \<or>
          (\<exists>ch. res = Inr ch \<and> pending (reader t) = Rune ch # pending (reader t1)))"
  using assms
  by (auto simp: readRune_def ReadRune_def Let_def split: list.splits event.splits if_splits)

lemma unreadRune_cases:
  assumes "unreadRune t = (res, t1)"
  shows "tokenBuffer t1 = tokenBuffer t \<and> faults (pending (reader t1)) = faults (pending (reader t))"
  using assms
  by (auto simp: unreadRune_def UnreadRune_def split: option.splits)

lemma collectPlainScalar_props:
  "collectPlainScalar t scalar = (tk, err, t') \<Longrightarrow>
     tokenBuffer t' = tokenBuffer t \<and>
     surfaced (pending (reader t)) (pending (reader t')) tk err \<and>
     (NL \<notin> set scalar \<longrightarrow> scalarOK tk)"
proof (induction t scalar arbitrary: tk err t' rule: collectPlainScalar.induct)
  case (1 t scalar)
  note res = "1.prems"
  obtain pk rd where pk: "(pk, rd) = Peek1 (reader t)"
    by (cases "Peek1 (reader t)") auto
  note pc = Peek1_cases [OF pk [symmetric]]
  show ?case
  proof (cases pk)
    case (Inl e)
    then show ?thesis
      using pk [symmetric] pc res
      by (auto simp: collectPlainScalar.simps [of t] Let_def returnError_def surfaced_def
            scalarOK_def split: if_splits)
  next
    case (Inr p)
    show ?thesis
    proof (cases "p = NL \<or> p = HASH")
      case True
      then show ?thesis
        using pk [symmetric] pc res Inr
        by (auto simp: collectPlainScalar.simps [of t] Let_def surfaced_def scalarOK_def)
    next
      case False
      obtain r t2 where rr: "(r, t2) = readRune ''collectPlainScalar'' (t\<lparr>reader := rd\<rparr>)"
        by (cases "readRune ''collectPlainScalar'' (t\<lparr>reader := rd\<rparr>)") auto
      note rc = readRune_cases [OF rr [symmetric]]
      show ?thesis
      proof (cases r)
        case e: (Inl e)
        then show ?thesis
          using pk [symmetric] pc res Inr False rr [symmetric] rc
          by (auto simp: collectPlainScalar.simps [of t] Let_def returnError_def)
      next
        case ch: (Inr ch)
        have rest: "collectPlainScalar t2 (scalar @ [ch]) = (tk, err, t')"
          using pk [symmetric] res Inr False rr [symmetric] ch
          by (simp add: collectPlainScalar.simps [of t] Let_def)
        have chp: "ch = p" and pend: "pending (reader t) = Rune ch # pending (reader t2)"
          and buf: "tokenBuffer t2 = tokenBuffer t"
          using pc rc Inr ch by auto
        from "1.IH" [OF pk refl refl Inr False rr ch rest] chp pend buf False
        show ?thesis
          by (auto simp: surfaced_def)
      qed
    qed
  qed
qed

lemma surfaced_refl [simp]: "surfaced p p tk err"
  by (simp add: surfaced_def)

lemma surfaced_fault [simp]:
  "surfaced (Fault e # p) p \<lparr>Type = TokenError, Value = v, Line = l, Column = c\<rparr> (Some (ReadFault e))"
  by (simp add: surfaced_def)

lemma surfaced_same [simp]: "faults q = faults p \<Longrightarrow> surfaced p q tk err"
  by (simp add: surfaced_def)

lemma scalarOK_simps [simp]:
  "ty \<noteq> TokenPlainScalar \<Longrightarrow> scalarOK \<lparr>Type = ty, Value = v, Line = l, Column = c\<rparr>"
  "NL \<notin> set v \<Longrightarrow> scalarOK \<lparr>Type = ty, Value = v, Line = l, Column = c\<rparr>"
  by (simp_all add: scalarOK_def)

lemma skipBlanks_props:
  "skipBlanks t ch = (tk, err, t') \<Longrightarrow>
     tokenBuffer t' = tokenBuffer t \<and>
     surfaced (pending (reader t)) (pending (reader t')) tk err \<and> scalarOK tk"
proof (induction t ch arbitrary: tk err t' rule: skipBlanks.induct)
  case (1 t ch)
  note res = "1.prems"
  obtain r t1 where rr: "(r, t1) = readRune ''NextToken: statusAfterDash'' t"
    by (cases "readRune ''NextToken: statusAfterDash'' t") auto
  note rc = readRune_cases [OF rr [symmetric]]
  consider (nl) "ch = NL" | (other) "ch \<noteq> NL" "ch \<noteq> SPC" | (sp) "ch \<noteq> NL" "\<not> ch \<noteq> SPC"
    by blast
  then show ?case
  proof cases
    case nl
    then show ?thesis
      using res by (auto simp: skipBlanks.simps [of t] returnNewLine_def)
  next
    case other
    then have "collectPlainScalar t [ch] = (tk, err, t')"
      using res by (simp add: skipBlanks.simps [of t])
    from collectPlainScalar_props [OF this] other show ?thesis
      by simp
  next
    case sp
    show ?thesis
    proof (cases r)
      case (Inl e)
      then show ?thesis
        using sp res rr [symmetric] rc
        by (auto simp: skipBlanks.simps [of t] returnEOF_def returnError_def split: if_splits)
    next
      case (Inr ch')
      have rest: "skipBlanks t1 ch' = (tk, err, t')"
        using sp res rr [symmetric] Inr by (simp add: skipBlanks.simps [of t])
      from "1.IH" [OF sp rr Inr rest] rc Inr show ?thesis
        by (auto simp: surfaced_def)
    qed
  qed
qed

lemma statusSwitch_props:
  assumes "statusSwitch ch t = Return (tk, err, t')"
  shows "tokenBuffer t' = tokenBuffer t \<and>
         surfaced (pending (reader t)) (pending (reader t')) tk err \<and> scalarOK tk"
proof (cases "status t")
  case statusBlank
  then show ?thesis
    using assms(1)
    by (auto simp: statusSwitch_def returnNewLine_def split: if_splits
          dest!: collectPlainScalar_props)
next
  case statusOneDot
  then show ?thesis
    using assms(1)
    by (auto simp: statusSwitch_def returnError_def split: if_splits prod.splits option.splits
          dest!: collectPlainScalar_props unreadRune_cases)
next
  case statusTwoDots
  then show ?thesis
    using assms(1)
    by (auto simp: statusSwitch_def returnError_def split: if_splits prod.splits option.splits
          dest!: collectPlainScalar_props unreadRune_cases)
next
  case statusThreeDots
  then show ?thesis
    using assms(1)
    by (auto simp: statusSwitch_def returnError_def returnDocEnd_def
          split: if_splits prod.splits option.splits
          dest!: collectPlainScalar_props unreadRune_cases)
next
  case statusOneDash
  then show ?thesis
    using assms(1)
    by (auto simp: statusSwitch_def returnError_def returnDash_def unreadAndReturnDash_def
          split: if_splits prod.splits option.splits
          dest!: collectPlainScalar_props unreadRune_cases)
next
  case statusTwoDashes
  then show ?thesis
    using assms(1)
    by (auto simp: statusSwitch_def returnError_def Let_def
          split: if_splits prod.splits option.splits
          dest!: collectPlainScalar_props unreadRune_cases)
next
  case statusThreeDashes
  then show ?thesis
    using assms(1)
    by (auto simp: statusSwitch_def returnError_def returnDocStart_def
          split: if_splits prod.splits option.splits
          dest!: collectPlainScalar_props unreadRune_cases)
next
  case statusAfterDash
  then show ?thesis
    using assms(1)
    by (auto simp: statusSwitch_def dest!: skipBlanks_props)
next
  case statusScalar
  then show ?thesis
    using assms(1)
    by (auto simp: statusSwitch_def returnError_def surfaced_def
          split: if_splits prod.splits option.splits
          dest!: collectPlainScalar_props unreadRune_cases)
qed

lemma pushPerStateEOF_props:
  assumes "pushPerStateEOF t = Inr t2" and "list_all scalarOK (tokenBuffer t)"
  shows "reader t2 = reader t \<and> list_all scalarOK (tokenBuffer t2)"
  using assms unfolding pushPerStateEOF_eq
  by (cases "status t")
     (auto simp: eofMarker_def dedentAt_def eofAt_def list_all_iff)

lemma NextToken_props:
  "NextToken t = Inr (tk, err, t') \<Longrightarrow>
     surfaced (pending (reader t)) (pending (reader t')) tk err \<and>
     (list_all scalarOK (tokenBuffer t) \<longrightarrow> scalarOK tk \<and> list_all scalarOK (tokenBuffer t'))"
proof (induction t rule: NextToken.induct)
  case (1 t)
  note res = "1.prems"(1)
  show ?case
  proof (cases "length (tokenBuffer t) > 0")
    case True
    then show ?thesis
      using res
      by (auto simp: NextToken.simps [of t] tokenBufferShift_def split: list.splits if_splits)
  next
    case False
    obtain r t1 where rr: "(r, t1) = readRune ''NextToken'' t"
      by (cases "readRune ''NextToken'' t") auto
    note rc = readRune_cases [OF rr [symmetric]]
    show ?thesis
    proof (cases r)
      case (Inl e)
      show ?thesis
      proof (cases "e = EOF")
        case True
        obtain t2 where push: "pushPerStateEOF t1 = Inr t2"
          using pushPerStateEOF_no_panic by blast
        have rest: "NextToken t2 = Inr (tk, err, t')"
          using res False rr [symmetric] Inl True push by (simp add: NextToken.simps [of t])
        have "list_all scalarOK (tokenBuffer t1)"
          using rc False by simp
        note pp = pushPerStateEOF_props [OF push this]
        from "1.IH"(1) [OF False rr Inl True push rest] pp rc Inl True
        show ?thesis
          by auto
      next
        case notEOF: False
        then show ?thesis
          using res False rr [symmetric] Inl rc
          by (auto simp: NextToken.simps [of t] returnError_def)
      qed
    next
      case (Inr ch)
      have pend: "pending (reader t) = Rune ch # pending (reader t1)"
        and buf: "tokenBuffer t1 = tokenBuffer t"
        using rc Inr by auto
      show ?thesis
      proof (cases "statusSwitch ch t1")
        case (Continue t2)
        have rest: "NextToken t2 = Inr (tk, err, t')"
          using res False rr [symmetric] Inr Continue by (simp add: NextToken.simps [of t])
        from statusSwitch_Continue [OF Continue] buf
        have b2: "tokenBuffer t2 = tokenBuffer t" and rd: "reader t2 = reader t1"
          by simp_all
        from "1.IH"(2) [OF False rr Inr Continue rest] rd pend b2
        show ?thesis
          by (simp add: surfaced_def)
      next
        case (Return r')
        then have sw: "statusSwitch ch t1 = Return (tk, err, t')"
          using res False rr [symmetric] Inr by (simp add: NextToken.simps [of t])
        from statusSwitch_props [OF sw] buf pend
        show ?thesis
          by (simp add: surfaced_def)
      qed
    qed
  qed
qed

lemma calls_scalarOK:
  "list_all scalarOK (tokenBuffer t) \<Longrightarrow> Inr (tk, err) \<in> set (calls n t) \<Longrightarrow> scalarOK tk"
proof (induction n arbitrary: t)
  case 0
  then show ?case by simp
next
  case (Suc n)
  obtain tk1 err1 t1 where nt: "NextToken t = Inr (tk1, err1, t1)"
    using NextToken_no_panic by blast
  from NextToken_props [OF nt] Suc.prems(1) Suc.IH [of t1] Suc.prems(2) nt
  show ?case
    by auto
qed

subsection \<open>A scalar begun in the \<^verbatim>\<open>Blank\<close> state\<close>

lemma readRune_Rune:
  "pending (reader t) = Rune r # es \<Longrightarrow>
     \<exists>t1. readRune c t = (Inr r, t1) \<and> pending (reader t1) = es \<and> line t1 = line t \<and>
          column t1 = column t + 1 \<and> status t1 = status t \<and> tokenBuffer t1 = tokenBuffer t"
  by (simp add: readRune_def ReadRune_def Let_def)

lemma collect_run:
  assumes "pending (reader t) = map Rune run @ rest" and "NL \<notin> set run" and "HASH \<notin> set run"
    and "atScalarEnd rest"
  shows "\<exists>t'. collectPlainScalar t scalar =
           (\<lparr>Type = TokenPlainScalar, Value = scalar @ run, Line = line t,
             Column = column t + int (length run) - len (scalar @ run)\<rparr>, None, t') \<and>
           pending (reader t') = rest"
  using assms
proof (induction run arbitrary: t scalar)
  case Nil
  then show ?case
    by (auto simp: collectPlainScalar.simps [of t] Peek1_def Let_def atScalarEnd_def
          split: list.splits event.splits)
next
  case (Cons r run)
  let ?t1 = "t\<lparr>reader := (reader t)\<lparr>lastRune := None\<rparr>\<rparr>"
  have pk: "Peek1 (reader t) = (Inr r, (reader t)\<lparr>lastRune := None\<rparr>)"
    using Cons.prems(1) by (simp add: Peek1_def)
  have "pending (reader ?t1) = Rune r # (map Rune run @ rest)"
    using Cons.prems(1) by simp
  from readRune_Rune [OF this, of "''collectPlainScalar''"] obtain t2 where
    rr: "readRune ''collectPlainScalar'' ?t1 = (Inr r, t2)" and
    t2: "pending (reader t2) = map Rune run @ rest" "line t2 = line t" "column t2 = column t + 1"
    by auto
  from Cons.IH [OF t2(1), of "scalar @ [r]"] Cons.prems(2,3,4) obtain t' where
    "collectPlainScalar t2 (scalar @ [r]) =
           (\<lparr>Type = TokenPlainScalar, Value = (scalar @ [r]) @ run, Line = line t2,
             Column = column t2 + int (length run) - len ((scalar @ [r]) @ run)\<rparr>, None, t')"
    and "pending (reader t') = rest"
    by auto
  then show ?case
    using pk rr t2 Cons.prems(2,3)
    by (auto simp: collectPlainScalar.simps [of t] Let_def)
qed

lemma skip_spaces:
  assumes "status t = statusBlank" and "tokenBuffer t = []"
    and "pending (reader t) = replicate k (Rune SPC) @ Rune c # tail"
    and "c \<noteq> SPC" and "c \<noteq> NL" and "(c = DASH \<or> c = DOT) \<longrightarrow> column t + int k \<noteq> 0"
  shows "\<exists>t1. NextToken t = Inr (collectPlainScalar t1 [c]) \<and> pending (reader t1) = tail \<and>
           line t1 = line t \<and> column t1 = column t + int k + 1"
  using assms
proof (induction k arbitrary: t)
  case 0
  then have "pending (reader t) = Rune c # tail"
    by simp
  from readRune_Rune [OF this, of "''NextToken''"] obtain t1 where
    rr: "readRune ''NextToken'' t = (Inr c, t1)" and
    t1: "pending (reader t1) = tail" "line t1 = line t" "column t1 = column t + 1"
      "status t1 = status t"
    by auto
  have "statusSwitch c t1 = Return (collectPlainScalar t1 [c])"
    using "0.prems" t1 by (auto simp: statusSwitch_def)
  then show ?case
    using rr t1 "0.prems"(2) by (auto simp: NextToken.simps [of t])
next
  case (Suc k)
  then have "pending (reader t) = Rune SPC # (replicate k (Rune SPC) @ Rune c # tail)"
    by simp
  from readRune_Rune [OF this, of "''NextToken''"] obtain t1 where
    rr: "readRune ''NextToken'' t = (Inr SPC, t1)" and
    t1: "pending (reader t1) = replicate k (Rune SPC) @ Rune c # tail" "line t1 = line t"
      "column t1 = column t + 1" "status t1 = status t" "tokenBuffer t1 = tokenBuffer t"
    by auto
  have sw: "statusSwitch SPC t1 = Continue t1"
    using Suc.prems(1) t1 by (simp add: statusSwitch_def)
  have "(c = DASH \<or> c = DOT) \<longrightarrow> column t1 + int k \<noteq> 0"
    using Suc.prems(6) t1 by auto
  from Suc.IH [OF _ _ t1(1) Suc.prems(4,5) this] t1 Suc.prems(1,2) obtain t2 where
    "NextToken t1 = Inr (collectPlainScalar t2 [c])" "pending (reader t2) = tail"
    "line t2 = line t" "column t2 = column t + int (Suc k) + 1"
    by auto
  then show ?case
    using rr sw Suc.prems(2) by (auto simp: NextToken.simps [of t])
qed

subsection \<open>Unreads: where they can fail and that \<^verbatim>\<open>NextToken\<close> never meets one\<close>

lemma readRune_lastRune:
  "readRune c t = (Inr ch, t1) \<Longrightarrow> lastRune (reader t1) = Some ch"
  by (auto simp: readRune_def ReadRune_def Let_def split: list.splits event.splits if_splits)

lemma collectPlainScalar_err:
  "collectPlainScalar t scalar = (tk, err, t') \<Longrightarrow> err \<noteq> Some ErrInvalidUnreadRune"
proof (induction t scalar arbitrary: tk err t' rule: collectPlainScalar.induct)
  case (1 t scalar)
  note res = "1.prems"
  obtain pk rd where pk: "(pk, rd) = Peek1 (reader t)"
    by (cases "Peek1 (reader t)") auto
  note pc = Peek1_cases [OF pk [symmetric]]
  show ?case
  proof (cases pk)
    case (Inl e)
    then show ?thesis
      using pk [symmetric] pc res
      by (auto simp: collectPlainScalar.simps [of t] Let_def returnError_def split: if_splits)
  next
    case (Inr p)
    show ?thesis
    proof (cases "p = NL \<or> p = HASH")
      case True
      then show ?thesis
        using pk [symmetric] res Inr
        by (auto simp: collectPlainScalar.simps [of t] Let_def)
    next
      case False
      obtain r t2 where rr: "(r, t2) = readRune ''collectPlainScalar'' (t\<lparr>reader := rd\<rparr>)"
        by (cases "readRune ''collectPlainScalar'' (t\<lparr>reader := rd\<rparr>)") auto
      note rc = readRune_cases [OF rr [symmetric]]
      show ?thesis
      proof (cases r)
        case e: (Inl e)
        then show ?thesis
          using pk [symmetric] res Inr False rr [symmetric] rc
          by (auto simp: collectPlainScalar.simps [of t] Let_def returnError_def)
      next
        case ch: (Inr ch)
        have rest: "collectPlainScalar t2 (scalar @ [ch]) = (tk, err, t')"
          using pk [symmetric] res Inr False rr [symmetric] ch
          by (simp add: collectPlainScalar.simps [of t] Let_def)
        from "1.IH" [OF pk refl refl Inr False rr ch rest] show ?thesis .
      qed
    qed
  qed
qed

lemma skipBlanks_err:
  "skipBlanks t ch = (tk, err, t') \<Longrightarrow> err \<noteq> Some ErrInvalidUnreadRune"
proof (induction t ch arbitrary: tk err t' rule: skipBlanks.induct)
  case (1 t ch)
  note res = "1.prems"
  obtain r t1 where rr: "(r, t1) = readRune ''NextToken: statusAfterDash'' t"
    by (cases "readRune ''NextToken: statusAfterDash'' t") auto
  note rc = readRune_cases [OF rr [symmetric]]
  consider (nl) "ch = NL" | (other) "ch \<noteq> NL" "ch \<noteq> SPC" | (sp) "ch \<noteq> NL" "\<not> ch \<noteq> SPC"
    by blast
  then show ?case
  proof cases
    case nl
    then show ?thesis
      using res by (auto simp: skipBlanks.simps [of t] returnNewLine_def)
  next
    case other
    then have "collectPlainScalar t [ch] = (tk, err, t')"
      using res by (simp add: skipBlanks.simps [of t])
    then show ?thesis
      by (rule collectPlainScalar_err)
  next
    case sp
    show ?thesis
    proof (cases r)
      case (Inl e)
      then show ?thesis
        using sp res rr [symmetric] rc
        by (auto simp: skipBlanks.simps [of t] returnEOF_def returnError_def split: if_splits)
    next
      case (Inr ch')
      have rest: "skipBlanks t1 ch' = (tk, err, t')"
        using sp res rr [symmetric] Inr by (simp add: skipBlanks.simps [of t])
      from "1.IH" [OF sp rr Inr rest] show ?thesis .
    qed
  qed
qed

lemma statusSwitch_err:
  assumes "statusSwitch ch t = Return (tk, err, t')" and "lastRune (reader t) = Some r"
  shows "err \<noteq> Some ErrInvalidUnreadRune"
proof (cases "status t")
  case statusBlank
  then show ?thesis
    using assms
    by (auto simp: statusSwitch_def returnNewLine_def split: if_splits
          dest!: collectPlainScalar_err)
next
  case statusOneDot
  then show ?thesis
    using assms
    by (auto simp: statusSwitch_def unreadRune_def UnreadRune_def split: if_splits
          dest!: collectPlainScalar_err)
next
  case statusTwoDots
  then show ?thesis
    using assms
    by (auto simp: statusSwitch_def unreadRune_def UnreadRune_def split: if_splits
          dest!: collectPlainScalar_err)
next
  case statusThreeDots
  then show ?thesis
    using assms
    by (auto simp: statusSwitch_def unreadRune_def UnreadRune_def returnDocEnd_def
          split: if_splits dest!: collectPlainScalar_err)
next
  case statusOneDash
  then show ?thesis
    using assms
    by (auto simp: statusSwitch_def unreadRune_def UnreadRune_def returnDash_def
          unreadAndReturnDash_def split: if_splits dest!: collectPlainScalar_err)
next
  case statusTwoDashes
  then show ?thesis
    using assms
    by (auto simp: statusSwitch_def unreadRune_def UnreadRune_def Let_def
          split: if_splits dest!: collectPlainScalar_err)
next
  case statusThreeDashes
  then show ?thesis
    using assms
    by (auto simp: statusSwitch_def unreadRune_def UnreadRune_def returnDocStart_def
          split: if_splits dest!: collectPlainScalar_err)
next
  case statusAfterDash
  then show ?thesis
    using assms
    by (auto simp: statusSwitch_def dest!: skipBlanks_err)
next
  case statusScalar
  then show ?thesis
    using assms
    by (auto simp: statusSwitch_def unreadRune_def UnreadRune_def
          split: if_splits dest!: collectPlainScalar_err)
qed

lemma NextToken_err:
  "NextToken t = Inr (tk, err, t') \<Longrightarrow> err \<noteq> Some ErrInvalidUnreadRune"
proof (induction t rule: NextToken.induct)
  case (1 t)
  note res = "1.prems"(1)
  show ?case
  proof (cases "length (tokenBuffer t) > 0")
    case True
    then show ?thesis
      using res
      by (auto simp: NextToken.simps [of t] tokenBufferShift_def split: list.splits if_splits)
  next
    case False
    obtain r t1 where rr: "(r, t1) = readRune ''NextToken'' t"
      by (cases "readRune ''NextToken'' t") auto
    note rc = readRune_cases [OF rr [symmetric]]
    show ?thesis
    proof (cases r)
      case (Inl e)
      show ?thesis
      proof (cases "e = EOF")
        case True
        obtain t2 where push: "pushPerStateEOF t1 = Inr t2"
          using pushPerStateEOF_no_panic by blast
        have rest: "NextToken t2 = Inr (tk, err, t')"
          using res False rr [symmetric] Inl True push by (simp add: NextToken.simps [of t])
        from "1.IH"(1) [OF False rr Inl True push rest] show ?thesis .
      next
        case notEOF: False
        then show ?thesis
          using res False rr [symmetric] Inl rc
          by (auto simp: NextToken.simps [of t] returnError_def)
      qed
    next
      case (Inr ch)
      have lr: "lastRune (reader t1) = Some ch"
        using readRune_lastRune [of "''NextToken''" t ch t1] rr Inr by simp
      show ?thesis
      proof (cases "statusSwitch ch t1")
        case (Continue t2)
        have rest: "NextToken t2 = Inr (tk, err, t')"
          using res False rr [symmetric] Inr Continue by (simp add: NextToken.simps [of t])
        from "1.IH"(2) [OF False rr Inr Continue rest] show ?thesis .
      next
        case (Return r')
        then have sw: "statusSwitch ch t1 = Return (tk, err, t')"
          using res False rr [symmetric] Inr by (simp add: NextToken.simps [of t])
        from statusSwitch_err [OF sw lr] show ?thesis .
      qed
    qed
  qed
qed

lemma unreadRune_twice:
  "unreadRune (snd (unreadRune t)) = (Some ErrInvalidUnreadRune, snd (unreadRune t))"
  by (cases "lastRune (reader t)") (simp_all add: unreadRune_def UnreadRune_def)

lemma failed_unread_sites:
  assumes "lastRune (reader t) = None"
    and "(ch = NL \<and> status t \<notin> {statusBlank, statusAfterDash}) \<or> (ch = TAB \<and> status t = statusOneDash)"
  shows "statusSwitch ch t =
        Return (\<lparr>Type = TokenError, Value = [], Line = line t, Column = column t\<rparr>,
                Some ErrInvalidUnreadRune,
                t\<lparr>status := (if ch = TAB then statusAfterDash else statusBlank)\<rparr>)"
  using assms
  by (cases "status t")
     (auto simp: statusSwitch_def unreadRune_def UnreadRune_def unreadAndReturnDash_def
        returnError_def)

section \<open>The claims of the specification\<close>

text \<open>
  Claim C1. Once \<^verbatim>\<open>NextToken\<close> has returned the end-of-input signal, every later call should
  return it again, also when the input ended inside a partial marker such as a lone dash.
  The code does not: on the input \<^verbatim>\<open>-\<close> the status stays \<^verbatim>\<open>statusOneDash\<close> after the
  closing tokens were queued, so the third call finds the buffer empty, meets end of
  input again, queues the \<^verbatim>\<open>Dash\<close> once more and returns it with a nil error.
\<close>

theorem lone_dash_after_EOF:
  "calls 4 (NewTokenizer [Rune DASH] False) =
     [Inr (\<lparr>Type = TokenDash, Value = [DASH], Line = 1, Column = 0\<rparr>, None),
      Inr (\<lparr>Type = TokenEOF, Value = [], Line = 1, Column = 1\<rparr>, Some EOF),
      Inr (\<lparr>Type = TokenDash, Value = [DASH], Line = 1, Column = 0\<rparr>, None),
      Inr (\<lparr>Type = TokenEOF, Value = [], Line = 1, Column = 1\<rparr>, Some EOF)]"
  by code_simp

text \<open>
  Claim C2. A line whose leading spaces exceed the top of the indentation stack should push
  the width and give an \<^verbatim>\<open>Indent\<close> token, so that a space followed by a dash yields
  \<^verbatim>\<open>Indent\<close>, \<^verbatim>\<open>Dash\<close>, \<^verbatim>\<open>Dedent\<close> and the end of input. The code never calls \<^verbatim>\<open>indentPush\<close>:
  the space is skipped, the dash is not in column 1, and the line is one plain scalar.
\<close>

theorem indented_dash_tokens:
  "calls 2 (NewTokenizer [Rune SPC, Rune DASH] False) =
     [Inr (\<lparr>Type = TokenPlainScalar, Value = [DASH], Line = 1, Column = 1\<rparr>, None),
      Inr (\<lparr>Type = TokenEOF, Value = [], Line = 1, Column = 2\<rparr>, Some EOF)]"
  by code_simp

text \<open>
  Claim C3. The value of a \<^verbatim>\<open>PlainScalar\<close> begun directly from the \<^verbatim>\<open>Blank\<close> state should be the
  raw run trimmed of leading and trailing whitespace. The code trims nothing: on the letter
  a followed by a space the value keeps the trailing space, which trimming removes.
\<close>

theorem blank_scalar_not_trimmed:
  "calls 1 (NewTokenizer [Rune 97, Rune SPC] False) =
     [Inr (\<lparr>Type = TokenPlainScalar, Value = [97, SPC], Line = 1, Column = 0\<rparr>, None)] \<and>
   specTrimmed [97, SPC] = [97]"
  by (rule conjI, code_simp, simp add: specTrimmed_def isSpace_def)

text \<open>
  Claim C3, as the code has it. In the \<^verbatim>\<open>Blank\<close> state with an empty buffer, after \<open>k\<close> leading
  spaces (which are skipped), a rune \<open>c\<close> that is neither space nor newline, and is not a
  dash or dot in column 1, starts a scalar. Its value is \<open>c\<close> and the run that follows, up to
  the next newline, number sign or end of input, verbatim: a leading tab and trailing
  whitespace are kept. Its column is the column after the run minus the byte length.
\<close>

theorem blank_scalar_verbatim:
  assumes "status t = statusBlank" and "tokenBuffer t = []"
    and "pending (reader t) = replicate k (Rune SPC) @ map Rune (c # run) @ rest"
    and "c \<noteq> SPC" and "c \<noteq> NL" and "(c = DASH \<or> c = DOT) \<longrightarrow> column t + int k \<noteq> 0"
    and "NL \<notin> set run" and "HASH \<notin> set run" and "atScalarEnd rest"
  shows "\<exists>t'. NextToken t =
           Inr (\<lparr>Type = TokenPlainScalar, Value = c # run, Line = line t,
                 Column = column t + int k + 1 + int (length run) - len (c # run)\<rparr>, None, t') \<and>
           pending (reader t') = rest"
proof -
  have "pending (reader t) = replicate k (Rune SPC) @ Rune c # (map Rune run @ rest)"
    using assms(3) by simp
  from skip_spaces [OF assms(1,2) this assms(4,5,6)] obtain t1 where
    nt: "NextToken t = Inr (collectPlainScalar t1 [c])" and
    t1: "pending (reader t1) = map Rune run @ rest" "line t1 = line t"
      "column t1 = column t + int k + 1"
    by blast
  from collect_run [OF t1(1) assms(7,8,9), of "[c]"] nt t1(2,3) show ?thesis
    by auto
qed

theorem blank_scalar_verbatim_witness:
  "NextToken (NewTokenizer [Rune SPC, Rune SPC, Rune TAB, Rune 97, Rune SPC, Rune NL] False) =
     Inr (\<lparr>Type = TokenPlainScalar, Value = [TAB, 97, SPC], Line = 1, Column = 2\<rparr>, None,
          (NewTokenizer [Rune NL] False)\<lparr>column := 5\<rparr>)"
proof -
  let ?t = "NewTokenizer [Rune SPC, Rune SPC, Rune TAB, Rune 97, Rune SPC, Rune NL] False"
  have h: "status ?t = statusBlank" "tokenBuffer ?t = []"
    "pending (reader ?t) = replicate 2 (Rune SPC) @ map Rune (TAB # [97, SPC]) @ [Rune NL]"
    "TAB \<noteq> SPC" "TAB \<noteq> NL" "(TAB = DASH \<or> TAB = DOT) \<longrightarrow> column ?t + int 2 \<noteq> 0"
    "NL \<notin> set [97, SPC]" "HASH \<notin> set [97, SPC]" "atScalarEnd [Rune NL]"
    by (simp_all add: NewTokenizer_def NewReader_def atScalarEnd_def numeral_2_eq_2)
  have e: "NextToken ?t =
     Inr (\<lparr>Type = TokenPlainScalar, Value = [TAB, 97, SPC], Line = 1, Column = 2\<rparr>, None,
          (NewTokenizer [Rune NL] False)\<lparr>column := 5\<rparr>)"
    by code_simp
  from blank_scalar_verbatim [OF h] e show ?thesis
    by simp
qed

text \<open>
  Claim C4. The \<^verbatim>\<open>Column\<close> of a token should be the 1-based column of its first character,
  3 for the scalar of two spaces followed by three dashes. \<^verbatim>\<open>collectPlainScalar\<close> computes
  the column after the last rune minus the length, which is one less: 2.
\<close>

theorem indented_three_dashes_column:
  "calls 2 (NewTokenizer [Rune SPC, Rune SPC, Rune DASH, Rune DASH, Rune DASH] False) =
     [Inr (\<lparr>Type = TokenPlainScalar, Value = [DASH, DASH, DASH], Line = 1, Column = 2\<rparr>, None),
      Inr (\<lparr>Type = TokenEOF, Value = [], Line = 1, Column = 5\<rparr>, Some EOF)]"
  by code_simp

text \<open>
  Claim C5. When the input ends while the status is \<^verbatim>\<open>OneDash\<close>, \<^verbatim>\<open>TwoDashes\<close>, \<^verbatim>\<open>ThreeDashes\<close>,
  \<^verbatim>\<open>OneDot\<close>, \<^verbatim>\<open>TwoDots\<close> or \<^verbatim>\<open>ThreeDots\<close>, the next calls return, in order, the token of
  that partial marker (\<^verbatim>\<open>Dash\<close>, the scalar of two dashes, \<^verbatim>\<open>DocStart\<close>, the scalar of one dot,
  the scalar of two dots, \<^verbatim>\<open>DocEnd\<close>), then one \<^verbatim>\<open>Dedent\<close> for every indentation level above
  the base, then the end of input; the marker token has the kind and the value of the token
  that the newline transition of the same status returns; and the input of three dashes
  yields \<^verbatim>\<open>DocStart\<close> and the end of input.
\<close>

theorem partial_marker_at_EOF:
  assumes "tokenBuffer t = []" and "pending (reader t) = []"
    and "specPartialMarker (status t) = Some (ty, v)"
    and "length (indentationLevelStack t) = Suc n"
  shows "calls (n + 2) t =
           Inr (\<lparr>Type = ty, Value = v, Line = line t, Column = column t - int (length v)\<rparr>, None) #
           replicate n
             (Inr (\<lparr>Type = TokenDedent, Value = [], Line = line t, Column = column t\<rparr>, None)) @
           [Inr (\<lparr>Type = TokenEOF, Value = [], Line = line t, Column = column t\<rparr>, Some EOF)]
         \<and> (\<exists>tk t'. NextToken (t\<lparr>reader := (reader t)\<lparr>pending := [Rune NL]\<rparr>\<rparr>) = Inr (tk, None, t')
                \<and> Type tk = ty \<and> Value tk = v)
         \<and> calls 2 (NewTokenizer [Rune DASH, Rune DASH, Rune DASH] dbg) =
             [Inr (\<lparr>Type = TokenDocStart, Value = [DASH, DASH, DASH], Line = 1, Column = 0\<rparr>, None),
              Inr (\<lparr>Type = TokenEOF, Value = [], Line = 1, Column = 3\<rparr>, Some EOF)]"
proof (intro conjI)
  have ty: "ty \<noteq> TokenEOF"
    using assms(3) by (cases "status t") auto
  from calls_at_EOF [OF assms(1,2)] eofMarker_spec [OF assms(3)] assms(4) ty
  show "calls (n + 2) t =
           Inr (\<lparr>Type = ty, Value = v, Line = line t, Column = column t - int (length v)\<rparr>, None) #
           replicate n
             (Inr (\<lparr>Type = TokenDedent, Value = [], Line = line t, Column = column t\<rparr>, None)) @
           [Inr (\<lparr>Type = TokenEOF, Value = [], Line = line t, Column = column t\<rparr>, Some EOF)]"
    by (simp add: errOf_def dedentAt_def eofAt_def)
next
  show "\<exists>tk t'. NextToken (t\<lparr>reader := (reader t)\<lparr>pending := [Rune NL]\<rparr>\<rparr>) = Inr (tk, None, t')
                \<and> Type tk = ty \<and> Value tk = v"
    by (rule newline_transition [where rest = "[]"]) (simp_all add: assms)
next
  have quiet: "calls 2 (NewTokenizer [Rune DASH, Rune DASH, Rune DASH] False) =
             [Inr (\<lparr>Type = TokenDocStart, Value = [DASH, DASH, DASH], Line = 1, Column = 0\<rparr>, None),
              Inr (\<lparr>Type = TokenEOF, Value = [], Line = 1, Column = 3\<rparr>, Some EOF)]"
    by code_simp
  show "calls 2 (NewTokenizer [Rune DASH, Rune DASH, Rune DASH] dbg) =
             [Inr (\<lparr>Type = TokenDocStart, Value = [DASH, DASH, DASH], Line = 1, Column = 0\<rparr>, None),
              Inr (\<lparr>Type = TokenEOF, Value = [], Line = 1, Column = 3\<rparr>, Some EOF)]"
    unfolding calls_any_debug [of 2 _ dbg] by (rule quiet)
qed

theorem partial_marker_at_EOF_witness:
  "calls 3 ((NewTokenizer [] False)\<lparr>status := statusTwoDashes, column := 2,
                                     indentationLevelStack := [0, 2]\<rparr>) =
     [Inr (\<lparr>Type = TokenPlainScalar, Value = [DASH, DASH], Line = 1, Column = 0\<rparr>, None),
      Inr (\<lparr>Type = TokenDedent, Value = [], Line = 1, Column = 2\<rparr>, None),
      Inr (\<lparr>Type = TokenEOF, Value = [], Line = 1, Column = 2\<rparr>, Some EOF)]"
proof -
  let ?t = "(NewTokenizer [] False)\<lparr>status := statusTwoDashes, column := 2,
                                     indentationLevelStack := [0, 2]\<rparr>"
  have h1: "tokenBuffer ?t = []" and h2: "pending (reader ?t) = []"
    and h3: "specPartialMarker (status ?t) = Some (TokenPlainScalar, [DASH, DASH])"
    and h4: "length (indentationLevelStack ?t) = Suc 1"
    by (simp_all add: NewTokenizer_def NewReader_def)
  from partial_marker_at_EOF [OF h1 h2 h3 h4]
  show ?thesis
    by (simp add: NewTokenizer_def numeral_3_eq_3)
qed

text \<open>
  Claim C6. Internal invariant violations should reach the caller as an \<^verbatim>\<open>Error\<close> token and
  never as a panic. Two of them are panics in the code: \<^verbatim>\<open>indentPop\<close> on the base level
  calls \<^verbatim>\<open>panic\<close>, and \<^verbatim>\<open>tokenBufferShift\<close> on an empty buffer indexes an empty slice.
\<close>

theorem helper_panics:
  "indentPop (NewTokenizer [] False) = Inl PanicCannotPopIndentationLevel \<and>
   tokenBufferShift (NewTokenizer [] False) = Inl PanicIndexOutOfRange"
  by (simp add: indentPop_def tokenBufferShift_def NewTokenizer_def)

text \<open>
  Claim C6, as the code has it. In every tokenizer state, \<^verbatim>\<open>indentPop\<close> panics when the
  stack holds no level above the base, and \<^verbatim>\<open>tokenBufferShift\<close> panics when the buffer is
  empty; neither becomes a token. \<^verbatim>\<open>NextToken\<close> guards both helpers (it shifts only a
  non-empty buffer and pops only above the base), so from every state it returns a token
  and never panics. A second unread in a row always fails with \<^verbatim>\<open>ErrInvalidUnreadRune\<close>, and
  at every place where the code unreads, a failing unread is returned as an \<^verbatim>\<open>Error\<close> token
  at the current line and column, paired with that cause: the newline transitions of
  \<^verbatim>\<open>OneDot\<close>, \<^verbatim>\<open>TwoDots\<close>, \<^verbatim>\<open>ThreeDots\<close>, \<^verbatim>\<open>OneDash\<close>, \<^verbatim>\<open>TwoDashes\<close>, \<^verbatim>\<open>ThreeDashes\<close> and \<^verbatim>\<open>Scalar\<close>,
  and the tab transition of \<^verbatim>\<open>OneDash\<close>. Inside \<^verbatim>\<open>NextToken\<close> every unread directly follows
  a successful read, so no call of \<^verbatim>\<open>NextToken\<close> returns that error.
\<close>

theorem violations_and_NextToken:
  "(length (indentationLevelStack t) \<le> 1 \<longrightarrow> indentPop t = Inl PanicCannotPopIndentationLevel) \<and>
   (tokenBuffer t = [] \<longrightarrow> tokenBufferShift t = Inl PanicIndexOutOfRange) \<and>
   (\<exists>tk err t'. NextToken t = Inr (tk, err, t') \<and> err \<noteq> Some ErrInvalidUnreadRune) \<and>
   unreadRune (snd (unreadRune t)) = (Some ErrInvalidUnreadRune, snd (unreadRune t)) \<and>
   (lastRune (reader t) = None \<and>
    ((ch = NL \<and> status t \<notin> {statusBlank, statusAfterDash}) \<or>
     (ch = TAB \<and> status t = statusOneDash)) \<longrightarrow>
      statusSwitch ch t =
        Return (\<lparr>Type = TokenError, Value = [], Line = line t, Column = column t\<rparr>,
                Some ErrInvalidUnreadRune,
                t\<lparr>status := (if ch = TAB then statusAfterDash else statusBlank)\<rparr>))"
proof (intro conjI impI)
  assume "length (indentationLevelStack t) \<le> 1"
  then show "indentPop t = Inl PanicCannotPopIndentationLevel"
    by (simp add: indentPop_def)
next
  assume "tokenBuffer t = []"
  then show "tokenBufferShift t = Inl PanicIndexOutOfRange"
    by (simp add: tokenBufferShift_def)
next
  obtain tk err t' where nt: "NextToken t = Inr (tk, err, t')"
    using NextToken_no_panic by blast
  from NextToken_err [OF nt] nt
  show "\<exists>tk err t'. NextToken t = Inr (tk, err, t') \<and> err \<noteq> Some ErrInvalidUnreadRune"
    by blast
next
  show "unreadRune (snd (unreadRune t)) = (Some ErrInvalidUnreadRune, snd (unreadRune t))"
    by (rule unreadRune_twice)
next
  assume "lastRune (reader t) = None \<and>
    ((ch = NL \<and> status t \<notin> {statusBlank, statusAfterDash}) \<or>
     (ch = TAB \<and> status t = statusOneDash))"
  then show "statusSwitch ch t =
        Return (\<lparr>Type = TokenError, Value = [], Line = line t, Column = column t\<rparr>,
                Some ErrInvalidUnreadRune,
                t\<lparr>status := (if ch = TAB then statusAfterDash else statusBlank)\<rparr>)"
    using failed_unread_sites [of t ch] by blast
qed

theorem violations_and_NextToken_witness:
  "indentPop ((NewTokenizer [] False)\<lparr>status := statusOneDash\<rparr>) = Inl PanicCannotPopIndentationLevel \<and>
   tokenBufferShift ((NewTokenizer [] False)\<lparr>status := statusOneDash\<rparr>) = Inl PanicIndexOutOfRange \<and>
   statusSwitch TAB ((NewTokenizer [] False)\<lparr>status := statusOneDash\<rparr>) =
     Return (\<lparr>Type = TokenError, Value = [], Line = 1, Column = 0\<rparr>, Some ErrInvalidUnreadRune,
             (NewTokenizer [] False)\<lparr>status := statusAfterDash\<rparr>)"
proof -
  let ?t = "(NewTokenizer [] False)\<lparr>status := statusOneDash\<rparr>"
  have h1: "length (indentationLevelStack ?t) \<le> 1" and h2: "tokenBuffer ?t = []"
    and h3: "lastRune (reader ?t) = None \<and>
      ((TAB = NL \<and> status ?t \<notin> {statusBlank, statusAfterDash}) \<or>
       (TAB = TAB \<and> status ?t = statusOneDash))"
    by (simp_all add: NewTokenizer_def NewReader_def)
  from violations_and_NextToken [of ?t TAB] h1 h2 h3
  show ?thesis
    by (simp add: NewTokenizer_def)
qed

text \<open>
  Claim C7. Every read of the underlying reader that fails with an error other than end of
  input is returned by the very call of \<^verbatim>\<open>NextToken\<close> that met it, as an \<^verbatim>\<open>Error\<close> token paired
  with the cause. \<open>faults\<close> lists the read faults still to come: a call that changes the
  list has consumed exactly its first fault and returns it; and when the buffer is empty and
  the next read fails, this call returns the fault at the current line and column.
\<close>

theorem read_fault_surfaces:
  assumes "NextToken t = Inr (tk, err, t')"
  shows "(faults (pending (reader t')) \<noteq> faults (pending (reader t)) \<longrightarrow>
            (\<exists>e. faults (pending (reader t)) = e # faults (pending (reader t')) \<and>
                 Type tk = TokenError \<and> err = Some (ReadFault e))) \<and>
         (tokenBuffer t = [] \<and> pending (reader t) = Fault e # rest \<longrightarrow>
            tk = \<lparr>Type = TokenError, Value = [], Line = line t, Column = column t\<rparr> \<and>
            err = Some (ReadFault e) \<and> pending (reader t') = rest)"
proof (intro conjI impI)
  assume "faults (pending (reader t')) \<noteq> faults (pending (reader t))"
  with NextToken_props [OF assms]
  have "faults (pending (reader t)) \<noteq> []" and "faults (pending (reader t')) = tl (faults (pending (reader t)))"
    and "Type tk = TokenError" and "err = Some (ReadFault (hd (faults (pending (reader t)))))"
    by (simp_all add: surfaced_def)
  then show "\<exists>e. faults (pending (reader t)) = e # faults (pending (reader t')) \<and>
                 Type tk = TokenError \<and> err = Some (ReadFault e)"
    by (cases "faults (pending (reader t))") simp_all
next
  assume "tokenBuffer t = [] \<and> pending (reader t) = Fault e # rest"
  with assms show "tk = \<lparr>Type = TokenError, Value = [], Line = line t, Column = column t\<rparr>"
    and "err = Some (ReadFault e)" and "pending (reader t') = rest"
    by (auto simp: NextToken.simps [of t] readRune_def ReadRune_def Let_def returnError_def
          split: if_splits)
qed

theorem read_fault_surfaces_witness:
  "NextToken (NewTokenizer [Fault ''read error'', Rune 97] False) =
     Inr (\<lparr>Type = TokenError, Value = [], Line = 1, Column = 0\<rparr>, Some (ReadFault ''read error''),
          NewTokenizer [Rune 97] False) \<and>
   faults (pending (reader (NewTokenizer [Fault ''read error'', Rune 97] False))) = [''read error''] \<and>
   faults (pending (reader (NewTokenizer [Rune 97] False))) = []"
proof -
  let ?t = "NewTokenizer [Fault ''read error'', Rune 97] False"
  let ?t' = "NewTokenizer [Rune 97] False"
  have h: "NextToken ?t =
     Inr (\<lparr>Type = TokenError, Value = [], Line = 1, Column = 0\<rparr>, Some (ReadFault ''read error''), ?t')"
    by code_simp
  have f: "faults (pending (reader ?t)) = [''read error'']" "faults (pending (reader ?t')) = []"
    and g: "tokenBuffer ?t = [] \<and> pending (reader ?t) = Fault ''read error'' # [Rune 97]"
    by (simp_all add: NewTokenizer_def NewReader_def)
  from read_fault_surfaces [OF h, of "''read error''" "[Rune 97]"] h f g show ?thesis
    by simp
qed

text \<open>
  Claim C8. For every input, a tokenizer created with the debug flag set returns the same
  sequence of tokens and errors (kinds, values, lines and columns), call after call, as one
  created with the flag cleared.
\<close>

theorem debug_flag_no_effect:
  "calls n (NewTokenizer input True) = calls n (NewTokenizer input False)"
proof -
  have "quiet (NewTokenizer input True) = NewTokenizer input False"
    by (simp add: quiet_def NewTokenizer_def)
  then show ?thesis
    using calls_quiet [of n "NewTokenizer input True"] by simp
qed

text \<open>
  Claim C9. For every \<open>N\<close>, an input of exactly \<open>N\<close> newlines gives exactly \<open>N\<close> \<^verbatim>\<open>NewLine\<close>
  tokens and then the end of input. The lines count from 1 and grow by one per newline;
  every newline is read in column 1 and the end of input is reported in column 0, the
  column being reset to 0 after each \<^verbatim>\<open>NewLine\<close>.
\<close>

theorem newlines_only:
  "calls (Suc N) (NewTokenizer (replicate N (Rune NL)) dbg) =
     map (\<lambda>i. Inr (\<lparr>Type = TokenNewLine, Value = [92, 110], Line = 1 + int i, Column = 1\<rparr>, None))
       [0..<N] @
     [Inr (\<lparr>Type = TokenEOF, Value = [], Line = 1 + int N, Column = 0\<rparr>, Some EOF)]"
  using newlines_only_general [of "NewTokenizer (replicate N (Rune NL)) dbg" N]
  by (simp add: NewTokenizer_def NewReader_def)

text \<open>
  Claim C10. For every input, no \<^verbatim>\<open>PlainScalar\<close> token that \<^verbatim>\<open>NextToken\<close> returns has a newline
  in its value: the scalar never starts with a newline, and collection stops when the
  next rune is one.
\<close>

theorem scalar_has_no_newline:
  assumes "Inr (tk, err) \<in> set (calls n (NewTokenizer input dbg))"
    and "Type tk = TokenPlainScalar"
  shows "NL \<notin> set (Value tk)"
proof -
  have "list_all scalarOK (tokenBuffer (NewTokenizer input dbg))"
    by (simp add: NewTokenizer_def)
  from calls_scalarOK [OF this assms(1)] assms(2) show ?thesis
    by (simp add: scalarOK_def)
qed

theorem scalar_has_no_newline_witness:
  "Inr (\<lparr>Type = TokenPlainScalar, Value = [97, 98], Line = 1, Column = 0\<rparr>, None)
     \<in> set (calls 2 (NewTokenizer [Rune 97, Rune 98, Rune NL, Rune 99] False)) \<and>
   NL \<notin> set (Value \<lparr>Type = TokenPlainScalar, Value = [97, 98], Line = 1, Column = 0\<rparr>)"
proof -
  let ?tk = "\<lparr>Type = TokenPlainScalar, Value = [97, 98], Line = 1, Column = 0\<rparr>"
  have "calls 2 (NewTokenizer [Rune 97, Rune 98, Rune NL, Rune 99] False) =
          [Inr (?tk, None), Inr (\<lparr>Type = TokenNewLine, Value = [92, 110], Line = 1, Column = 3\<rparr>, None)]"
    by code_simp
  then have h1: "Inr (?tk, None) \<in> set (calls 2 (NewTokenizer [Rune 97, Rune 98, Rune NL, Rune 99] False))"
    by simp
  have h2: "Type ?tk = TokenPlainScalar"
    by simp
  from scalar_has_no_newline [OF h1 h2] h1 show ?thesis
    by blast
qed

end
